theory Spec2Isabelle
  imports Main "HOL-Library.AList" "HOL-Library.Multiset"
begin

section \<open>The pub/sub store of pubsub.ts\<close>

text \<open>
  The store of \<^verbatim>\<open>src/pubsub.ts\<close> is embedded with explicit state passing. Every public
  method takes the store and returns an outcome: the value returned (or the exception
  raised), the store afterwards, and the calls the method made to the outside world
  (listener invocations and \<^verbatim>\<open>console.error\<close>), in the order it made them.

  A listener is an opaque token of type \<open>'f\<close>; invoking it is recorded as an event. What
  a listener does when it is invoked is not the store's code. The methods are given
  twice. \<open>Put\<close>, \<open>Delete\<close> and \<open>Close\<close> are the methods when every listener they invoke
  returns normally and does not call back into the store while it runs. \<open>Put_with\<close>,
  \<open>Delete_with\<close> and \<open>Close_with\<close> are the same methods with an oracle that says,
  invocation by invocation, whether the listener returns, raises or calls back; what
  \<open>Put\<close> followed by \<open>Get\<close> yields and what \<open>Close\<close> leaves behind is stated of these,
  with the listeners it holds for. The other methods invoke no listener.

  A published value has type \<open>'v\<close>; JavaScript's \<^verbatim>\<open>null\<close> is \<open>None\<close> of \<open>'v option\<close>.
  \<open>TypeError\<close> is the exception of a method call on a value that has no such method,
  \<open>ListenerError\<close> stands for whatever a listener raised.
\<close>

datatype error = TypeError | ListenerError

datatype ('f, 'v) event =
    Call 'f "'v option" string
  | ConsoleError string string

subsection \<open>Decimal rendering of the identifier counter\<close>

definition digit_char :: "nat \<Rightarrow> char" where
  "digit_char d = ''0123456789'' ! (d mod 10)"

fun string_of_nat :: "nat \<Rightarrow> string" where
  "string_of_nat n =
     (if n < 10 then [digit_char n] else string_of_nat (n div 10) @ [digit_char (n mod 10)])"

declare string_of_nat.simps [simp del]

subsection \<open>Subber (module common, not among the sources)\<close>

text \<open>
  Modelled from the spec: the class \<^verbatim>\<open>common.Subber\<close> is imported by pubsub.ts and its
  file is missing. Section 3 of the specification gives its fields: the namespace, the
  counter that seeds the next identifier, and the listeners, a mapping from subscription
  identifier to callback. The listeners are kept as an association list in registration
  order, which is the order they are visited in.
\<close>

record 'f Subber =
  namespace :: string
  counter :: nat
  listeners :: "(string \<times> 'f) list"

text \<open>
  Modelled from the spec: the constructor of \<^verbatim>\<open>common.Subber\<close>, which pubsub.ts calls
  with the namespace. The registry starts without listeners. The specification leaves the
  first value of the counter open; it is 0 here.
\<close>

definition Subber_new :: "string \<Rightarrow> 'f Subber" where
  "Subber_new ns = \<lparr>namespace = ns, counter = 0, listeners = []\<rparr>"

text \<open>
  Modelled from the spec: \<^verbatim>\<open>Subber.Sub\<close>, section 4.1. With an explicit identifier it
  registers the callback under that identifier and returns it unchanged; otherwise it
  mints the namespace, an underscore and the counter, increments the counter, registers
  and returns the minted identifier. Registering under an identifier already present
  replaces the callback, the listeners being a mapping.
\<close>

definition Subber_Sub :: "'f \<Rightarrow> string option \<Rightarrow> 'f Subber \<Rightarrow> string \<times> 'f Subber" where
  "Subber_Sub fn explicitId sb =
     (case explicitId of
        Some sid \<Rightarrow> (sid, sb\<lparr>listeners := AList.update sid fn (listeners sb)\<rparr>)
      | None \<Rightarrow>
          (let sid = namespace sb @ ''_'' @ string_of_nat (counter sb)
           in (sid, sb\<lparr>counter := counter sb + 1,
                       listeners := AList.update sid fn (listeners sb)\<rparr>)))"

text \<open>
  Modelled from the spec: \<^verbatim>\<open>Subber.Unsub\<close>, section 4.1. It removes the listener bound
  to the identifier and returns whether it was present.
\<close>

definition Subber_Unsub :: "string \<Rightarrow> 'f Subber \<Rightarrow> bool \<times> 'f Subber" where
  "Subber_Unsub sid sb =
     (map_of (listeners sb) sid \<noteq> None,
      sb\<lparr>listeners := AList.delete sid (listeners sb)\<rparr>)"

text \<open>
  Modelled from the spec: \<^verbatim>\<open>Subber.ForEach\<close>, section 4.1. It calls the function once
  for every listener registered; what the function changes is threaded through as \<open>acc\<close>.
\<close>

definition Subber_ForEach :: "(string \<Rightarrow> 'f \<Rightarrow> 'a \<Rightarrow> 'a) \<Rightarrow> 'f Subber \<Rightarrow> 'a \<Rightarrow> 'a" where
  "Subber_ForEach f sb acc = fold (\<lambda>(sid, fn). f sid fn) (listeners sb) acc"

subsection \<open>Entry (module entry, not among the sources)\<close>

text \<open>
  Modelled from the spec: the class \<^verbatim>\<open>entry.Entry\<close> is imported by pubsub.ts and its file
  is missing. Section 3 of the specification gives its fields: the key, the latest value
  (unset until the first \<open>Put\<close>) and the local registry.
\<close>

record ('f, 'v) Entry =
  key :: string
  val :: "'v option"
  localSubs :: "'f Subber"

text \<open>
  Modelled from the spec: the constructor of \<^verbatim>\<open>entry.Entry\<close>, which pubsub.ts calls with
  the key. The value is unset and the local registry has the key as its namespace.
\<close>

definition Entry_new :: "string \<Rightarrow> ('f, 'v) Entry" where
  "Entry_new k = \<lparr>key = k, val = None, localSubs = Subber_new k\<rparr>"

text \<open>
  Modelled from the spec: \<^verbatim>\<open>Entry.Get\<close>, section 4.2. It returns the last published
  value, or null if none has been published.
\<close>

definition Entry_Get :: "('f, 'v) Entry \<Rightarrow> 'v option" where
  "Entry_Get e = val e"

text \<open>
  Modelled from the spec: \<^verbatim>\<open>Entry.Put\<close>, section 4.2. It stores the value and then
  invokes every listener of the local registry with the value and the key, in the order of
  the registry. This is the method when every listener returns normally without calling
  back into the store; \<open>Entry_Put_with\<close> below is the method for any listeners.
\<close>

definition Entry_Put :: "'v \<Rightarrow> ('f, 'v) Entry \<Rightarrow> ('f, 'v) Entry \<times> ('f, 'v) event list" where
  "Entry_Put v e =
     (e\<lparr>val := Some v\<rparr>,
      map (\<lambda>(sid, fn). Call fn (Some v) (key e)) (listeners (localSubs e)))"

text \<open>
  Modelled from the spec: \<^verbatim>\<open>Entry.Sub\<close>, section 4.2. It delegates to the local
  registry.
\<close>

definition Entry_Sub :: "'f \<Rightarrow> string option \<Rightarrow> ('f, 'v) Entry \<Rightarrow> string \<times> ('f, 'v) Entry" where
  "Entry_Sub fn explicitId e =
     (let (sid, sb) = Subber_Sub fn explicitId (localSubs e)
      in (sid, e\<lparr>localSubs := sb\<rparr>))"

text \<open>
  Modelled from the spec: \<^verbatim>\<open>Entry.Unsub\<close>, section 4.2. It delegates to the local
  registry.
\<close>

definition Entry_Unsub :: "string \<Rightarrow> ('f, 'v) Entry \<Rightarrow> bool \<times> ('f, 'v) Entry" where
  "Entry_Unsub sid e =
     (let (ok, sb) = Subber_Unsub sid (localSubs e)
      in (ok, e\<lparr>localSubs := sb\<rparr>))"

text \<open>
  Modelled from the spec: \<^verbatim>\<open>Entry.Close\<close>, section 4.2. It invokes every listener of
  the local registry with null and the key, then clears the registry. This is the method
  when every listener returns normally without calling back into the store;
  \<open>Entry_Close_with\<close> below is the method for any listeners.
\<close>

definition Entry_Close :: "('f, 'v) Entry \<Rightarrow> ('f, 'v) Entry \<times> ('f, 'v) event list" where
  "Entry_Close e =
     (e\<lparr>localSubs := (localSubs e)\<lparr>listeners := []\<rparr>\<rparr>,
      map (\<lambda>(sid, fn). Call fn None (key e)) (listeners (localSubs e)))"

subsection \<open>The entry map: an ordinary JavaScript object\<close>

text \<open>
  \<^verbatim>\<open>newEntryMap\<close> returns the object literal \<^verbatim>\<open>{}\<close>, whose prototype is
  \<^verbatim>\<open>Object.prototype\<close>. A read \<^verbatim>\<open>this.m[key]\<close> finds an own property first and
  otherwise follows the prototype chain, so the twelve property names of
  \<^verbatim>\<open>Object.prototype\<close> read as its members (functions, and the prototype object
  itself for \<^verbatim>\<open>__proto__\<close>): truthy values that are not entries and have none of the
  methods \<^verbatim>\<open>Get\<close>, \<^verbatim>\<open>Put\<close>, \<^verbatim>\<open>Sub\<close>, \<^verbatim>\<open>Unsub\<close>, \<^verbatim>\<open>Close\<close>. Calling one of
  these methods on such a value raises \<^verbatim>\<open>TypeError\<close>. The type \<^verbatim>\<open>entryMap\<close>, an
  index signature, is erased when the program is compiled and changes none of this.

  The store never gives the map an own property under one of these names: it assigns
  \<^verbatim>\<open>this.m[key]\<close> only in \<open>createEntry\<close>, after the read of the same key was falsy.

  The own properties are an association list in creation order.
\<close>

definition Object_prototype_keys :: "string list" where
  "Object_prototype_keys =
     [''constructor'', ''__defineGetter__'', ''__defineSetter__'', ''hasOwnProperty'',
      ''__lookupGetter__'', ''__lookupSetter__'', ''isPrototypeOf'',
      ''propertyIsEnumerable'', ''toString'', ''valueOf'', ''__proto__'',
      ''toLocaleString'']"

datatype 'e property = Own 'e | Inherited | Undefined

definition get_prop :: "(string \<times> 'e) list \<Rightarrow> string \<Rightarrow> 'e property" where
  "get_prop mp k =
     (case map_of mp k of
        Some e \<Rightarrow> Own e
      | None \<Rightarrow> if k \<in> set Object_prototype_keys then Inherited else Undefined)"

text \<open>
  \<^verbatim>\<open>for (var k in this.m)\<close> and \<^verbatim>\<open>Object.keys(this.m)\<close> enumerate the own
  enumerable string keys: first the array indices (canonical decimal numerals below
  \<open>2^32 - 1 = 4294967295\<close>) in ascending numeric order, then every other key in
  creation order. The members of \<^verbatim>\<open>Object.prototype\<close> are not enumerable.
\<close>

definition is_digit :: "char \<Rightarrow> bool" where
  "is_digit c = (c \<in> set ''0123456789'')"

definition digit_val :: "char \<Rightarrow> nat" where
  "digit_val c = of_char c - 48"

definition nat_of_string :: "string \<Rightarrow> nat" where
  "nat_of_string cs = fold (\<lambda>c n. 10 * n + digit_val c) cs 0"

definition is_array_index :: "string \<Rightarrow> bool" where
  "is_array_index cs =
     (cs \<noteq> [] \<and> list_all is_digit cs \<and> (cs = ''0'' \<or> hd cs \<noteq> CHR ''0'')
      \<and> nat_of_string cs < 4294967295)"

definition own_keys :: "(string \<times> 'e) list \<Rightarrow> string list" where
  "own_keys mp =
     sort_key nat_of_string (filter is_array_index (map fst mp))
     @ filter (\<lambda>k. \<not> is_array_index k) (map fst mp)"

subsection \<open>PubSub\<close>

text \<open>
  The class has two fields: the entry map \<^verbatim>\<open>m\<close> and the registry \<^verbatim>\<open>s\<close> of the global
  listeners.
\<close>

record ('f, 'v) PubSub =
  m :: "(string \<times> ('f, 'v) Entry) list"
  s :: "'f Subber"

text \<open>
  What a method call amounts to: its result (\<open>Inl\<close> for an exception that leaves the
  method), the store afterwards, and the events it emitted.
\<close>

type_synonym ('a, 'f, 'v) outcome = "(error + 'a) \<times> ('f, 'v) PubSub \<times> ('f, 'v) event list"

definition result_of :: "('a, 'f, 'v) outcome \<Rightarrow> error + 'a" where
  "result_of out = fst out"

definition state_of :: "('a, 'f, 'v) outcome \<Rightarrow> ('f, 'v) PubSub" where
  "state_of out = fst (snd out)"

definition events_of :: "('a, 'f, 'v) outcome \<Rightarrow> ('f, 'v) event list" where
  "events_of out = snd (snd out)"

text \<open>
  The constructor (lines 16-21): a fresh entry map and a registry with the prefix
  \<open>global\<close>.
\<close>

definition New :: "('f, 'v) PubSub" where
  "New = \<lparr>m = [], s = Subber_new ''global''\<rparr>"

text \<open>
  \<open>createEntry\<close> (lines 23-35):
  \<^verbatim>\<open>
  let e = this.m[key];
  if (!!e) { return e; }
  e = this.m[key] = new entry.Entry(key);
  this.s.ForEach((sKey, fn) => e.Sub(fn, sKey));
  return e;
  \<close>
  It returns the object it read or created: an entry, or, for a key that names a member
  of \<^verbatim>\<open>Object.prototype\<close>, that member (the early return, taken because the member is
  truthy). A new property is added after the existing ones.
\<close>

definition createEntry ::
    "string \<Rightarrow> ('f, 'v) PubSub \<Rightarrow> ('f, 'v) Entry property \<times> ('f, 'v) PubSub" where
  "createEntry k ps =
     (case get_prop (m ps) k of
        Own e \<Rightarrow> (Own e, ps)
      | Inherited \<Rightarrow> (Inherited, ps)
      | Undefined \<Rightarrow>
          (let e = Subber_ForEach (\<lambda>sKey fn e. snd (Entry_Sub fn (Some sKey) e)) (s ps)
                     (Entry_new k)
           in (Own e, ps\<lparr>m := AList.update k e (m ps)\<rparr>)))"

text \<open>
  The private \<open>forEach\<close> (lines 37-42):
  \<^verbatim>\<open>
  Object.keys(this.m).forEach((key) => { const e = this.m[key]; fn(key, e); });
  \<close>
  It visits the keys of \<^verbatim>\<open>Object.keys(this.m)\<close> in order, reads the entry under each
  and hands both to the callback. It is only called with callbacks that change the entry
  they are given and nothing else (\<^verbatim>\<open>e.Sub\<close>, \<^verbatim>\<open>e.Unsub\<close>), so the callback is a
  function from the entry to the entry afterwards, written back under its key. No
  callback removes a key, so every key visited has its entry.
\<close>

definition forEach_step ::
    "(string \<Rightarrow> ('f, 'v) Entry \<Rightarrow> ('f, 'v) Entry) \<Rightarrow> string \<Rightarrow> ('f, 'v) PubSub
       \<Rightarrow> ('f, 'v) PubSub" where
  "forEach_step f k ps =
     (case map_of (m ps) k of
        None \<Rightarrow> ps
      | Some e \<Rightarrow> ps\<lparr>m := AList.update k (f k e) (m ps)\<rparr>)"

definition forEach ::
    "(string \<Rightarrow> ('f, 'v) Entry \<Rightarrow> ('f, 'v) Entry) \<Rightarrow> ('f, 'v) PubSub \<Rightarrow> ('f, 'v) PubSub" where
  "forEach f ps = fold (forEach_step f) (own_keys (m ps)) ps"

text \<open>
  The private \<open>sub\<close> (lines 44-48):
  \<^verbatim>\<open>
  const sk = this.s.Sub(fn);
  this.forEach((key, e) => e.Sub(fn, sk));
  return sk;
  \<close>
\<close>

definition sub :: "'f \<Rightarrow> ('f, 'v) PubSub \<Rightarrow> string \<times> ('f, 'v) PubSub" where
  "sub fn ps =
     (let (sk, sb) = Subber_Sub fn None (s ps)
      in (sk, forEach (\<lambda>k e. snd (Entry_Sub fn (Some sk) e)) (ps\<lparr>s := sb\<rparr>)))"

text \<open>
  The private \<open>unsub\<close> (lines 50-61):
  \<^verbatim>\<open>
  if (!this.s.Unsub(key)) { console.error("Could not unsub key!", key); return false; }
  this.forEach((_, e) => e.Unsub(key));
  return true;
  \<close>
\<close>

definition unsub ::
    "string \<Rightarrow> ('f, 'v) PubSub \<Rightarrow> bool \<times> ('f, 'v) PubSub \<times> ('f, 'v) event list" where
  "unsub k ps =
     (let (ok, sb) = Subber_Unsub k (s ps)
      in if \<not> ok then (False, ps\<lparr>s := sb\<rparr>, [ConsoleError ''Could not unsub key!'' k])
         else (True, forEach (\<lambda>_ e. snd (Entry_Unsub k e)) (ps\<lparr>s := sb\<rparr>), []))"

text \<open>
  \<open>Get\<close> (lines 65-72):
  \<^verbatim>\<open>
  const entry = this.m[key];
  if (!entry) { return null; }
  return entry.Get();
  \<close>
\<close>

definition Get :: "string \<Rightarrow> ('f, 'v) PubSub \<Rightarrow> ('v option, 'f, 'v) outcome" where
  "Get k ps =
     (case get_prop (m ps) k of
        Undefined \<Rightarrow> (Inr None, ps, [])
      | Inherited \<Rightarrow> (Inl TypeError, ps, [])
      | Own e \<Rightarrow> (Inr (Entry_Get e), ps, []))"

text \<open>
  \<open>Put\<close> (lines 75-84):
  \<^verbatim>\<open>
  if (key === "*") { console.error("invalid key", key); return; }
  const entry = this.createEntry(key);
  entry.Put(val);
  \<close>
\<close>

definition Put :: "string \<Rightarrow> 'v \<Rightarrow> ('f, 'v) PubSub \<Rightarrow> (unit, 'f, 'v) outcome" where
  "Put k v ps =
     (if k = ''*'' then (Inr (), ps, [ConsoleError ''invalid key'' k])
      else
        (case createEntry k ps of
           (Own e, ps') \<Rightarrow>
             (let (e', evs) = Entry_Put v e
              in (Inr (), ps'\<lparr>m := AList.update k e' (m ps')\<rparr>, evs))
         | (_, ps') \<Rightarrow> (Inl TypeError, ps', [])))"

text \<open>
  \<open>Delete\<close> (lines 89-99):
  \<^verbatim>\<open>
  const entry = this.m[key];
  if (!entry) { return false; }
  entry.Close();
  return delete this.m[key];
  \<close>
  Deleting an own property of the map yields true.
\<close>

definition Delete :: "string \<Rightarrow> ('f, 'v) PubSub \<Rightarrow> (bool, 'f, 'v) outcome" where
  "Delete k ps =
     (case get_prop (m ps) k of
        Undefined \<Rightarrow> (Inr False, ps, [])
      | Inherited \<Rightarrow> (Inl TypeError, ps, [])
      | Own e \<Rightarrow>
          (let (e', evs) = Entry_Close e
           in (Inr True, ps\<lparr>m := AList.delete k (m ps)\<rparr>, evs)))"

text \<open>
  \<open>Sub\<close> (lines 102-111):
  \<^verbatim>\<open>
  if (key === "*") { return this.sub(fn); }
  const entry = this.createEntry(key);
  return entry.Sub(fn);
  \<close>
\<close>

definition Sub :: "string \<Rightarrow> 'f \<Rightarrow> ('f, 'v) PubSub \<Rightarrow> (string, 'f, 'v) outcome" where
  "Sub k fn ps =
     (if k = ''*'' then (let (sk, ps') = sub fn ps in (Inr sk, ps', []))
      else
        (case createEntry k ps of
           (Own e, ps') \<Rightarrow>
             (let (sid, e') = Entry_Sub fn None e
              in (Inr sid, ps'\<lparr>m := AList.update k e' (m ps')\<rparr>, []))
         | (_, ps') \<Rightarrow> (Inl TypeError, ps', [])))"

text \<open>
  \<open>Unsub\<close> (lines 114-131):
  \<^verbatim>\<open>
  const entryKey = key.split("_")[0];
  if (entryKey === "global") { return this.unsub(key); }
  const entry = this.m[entryKey];
  if (!entry) { return false; }
  return entry.Unsub(key)
  \<close>
  The first piece of \<^verbatim>\<open>key.split("_")\<close> is the part of the key before its first
  underscore, the whole key when it has none.
\<close>

definition Unsub :: "string \<Rightarrow> ('f, 'v) PubSub \<Rightarrow> (bool, 'f, 'v) outcome" where
  "Unsub k ps =
     (let entryKey = takeWhile (\<lambda>c. c \<noteq> CHR ''_'') k
      in if entryKey = ''global''
         then (let (ok, ps', evs) = unsub k ps in (Inr ok, ps', evs))
         else
           (case get_prop (m ps) entryKey of
              Undefined \<Rightarrow> (Inr False, ps, [])
            | Inherited \<Rightarrow> (Inl TypeError, ps, [])
            | Own e \<Rightarrow>
                (let (ok, e') = Entry_Unsub k e
                 in (Inr ok, ps\<lparr>m := AList.update entryKey e' (m ps)\<rparr>, []))))"

text \<open>
  \<open>Close\<close> (lines 133-138):
  \<^verbatim>\<open>
  for (var k in this.m) { this.m[k].Close(); delete this.m[k]; }
  \<close>
  It walks the keys that \<^verbatim>\<open>for ... in\<close> enumerates; a key whose property was deleted
  before its turn is skipped, as the enumeration does.
\<close>

definition Close_step ::
    "string \<Rightarrow> (string \<times> ('f, 'v) Entry) list \<times> ('f, 'v) event list
       \<Rightarrow> (string \<times> ('f, 'v) Entry) list \<times> ('f, 'v) event list" where
  "Close_step k acc =
     (case map_of (fst acc) k of
        None \<Rightarrow> acc
      | Some e \<Rightarrow> (AList.delete k (fst acc), snd acc @ snd (Entry_Close e)))"

definition Close :: "('f, 'v) PubSub \<Rightarrow> (unit, 'f, 'v) outcome" where
  "Close ps =
     (let (mp, evs) = fold Close_step (own_keys (m ps)) (m ps, [])
      in (Inr (), ps\<lparr>m := mp\<rparr>, evs))"

subsection \<open>Listeners that raise or call back\<close>

text \<open>
  Modelled from the spec: what a listener invocation can do. Section 5: delivery is a
  direct synchronous call, and a listener that raises propagates synchronously into the
  caller of \<open>Put\<close>, \<open>Delete\<close> or \<open>Close\<close>. A listener can also call the store while it
  runs.
\<close>

datatype reaction = Returns | Raises | CallsBack

text \<open>
  An oracle gives the reaction of each listener invocation a method call makes, counted
  from 0 in the order the call makes them. Two oracles: every invocation returns; the
  first \<open>n\<close> invocations return and the next one raises.
\<close>

definition quiet :: "nat \<Rightarrow> reaction" where
  "quiet i = Returns"

definition raises_after :: "nat \<Rightarrow> nat \<Rightarrow> reaction" where
  "raises_after n i = (if i < n then Returns else Raises)"

text \<open>
  Modelled from the spec: the notification pass of \<^verbatim>\<open>Entry.Put\<close> and \<^verbatim>\<open>Entry.Close\<close>
  (section 4.2: every listener of the local registry, synchronously, in registry order).
  The pass ends with the first invocation that does not return; the listeners after it
  are not invoked. The result is the invocations made and how the pass ended.
\<close>

fun notify ::
    "(nat \<Rightarrow> reaction) \<Rightarrow> 'v option \<Rightarrow> string \<Rightarrow> (string \<times> 'f) list
       \<Rightarrow> ('f, 'v) event list \<times> reaction" where
  "notify \<rho> v k [] = ([], Returns)"
| "notify \<rho> v k ((sid, fn) # L) =
     (case \<rho> 0 of
        Returns \<Rightarrow> (let (evs, r) = notify (\<lambda>i. \<rho> (Suc i)) v k L in (Call fn v k # evs, r))
      | Raises \<Rightarrow> ([Call fn v k], Raises)
      | CallsBack \<Rightarrow> ([Call fn v k], CallsBack))"

text \<open>
  Modelled from the spec: \<^verbatim>\<open>Entry.Put\<close>, section 4.2, for any listeners. The value is
  stored before the listeners are invoked.
\<close>

definition Entry_Put_with ::
    "(nat \<Rightarrow> reaction) \<Rightarrow> 'v \<Rightarrow> ('f, 'v) Entry
       \<Rightarrow> ('f, 'v) Entry \<times> ('f, 'v) event list \<times> reaction" where
  "Entry_Put_with \<rho> v e =
     (let (evs, r) = notify \<rho> (Some v) (key e) (listeners (localSubs e))
      in (e\<lparr>val := Some v\<rparr>, evs, r))"

text \<open>
  Modelled from the spec: \<^verbatim>\<open>Entry.Close\<close>, section 4.2, for any listeners. The registry
  is cleared after the listeners were invoked, so not when one of them raised.
\<close>

definition Entry_Close_with ::
    "(nat \<Rightarrow> reaction) \<Rightarrow> ('f, 'v) Entry
       \<Rightarrow> ('f, 'v) Entry \<times> ('f, 'v) event list \<times> reaction" where
  "Entry_Close_with \<rho> e =
     (let (evs, r) = notify \<rho> None (key e) (listeners (localSubs e))
      in (if r = Returns then e\<lparr>localSubs := (localSubs e)\<lparr>listeners := []\<rparr>\<rparr> else e, evs, r))"

text \<open>
  How a method goes on after a notification pass. pubsub.ts catches no exception, so
  what a listener raised leaves the method at once. After a listener called back into the
  store, what the store holds depends on how \<^verbatim>\<open>Subber.ForEach\<close> walks a registry that
  changes under it, which the specification leaves open (section 4.1: such changes need
  not be visible within the same pass): the model gives no outcome.
\<close>

definition after_listeners ::
    "reaction \<Rightarrow> 'a \<Rightarrow> ('f, 'v) PubSub \<Rightarrow> ('f, 'v) event list \<Rightarrow> ('a, 'f, 'v) outcome option" where
  "after_listeners r x ps evs =
     (case r of
        Returns \<Rightarrow> Some (Inr x, ps, evs)
      | Raises \<Rightarrow> Some (Inl ListenerError, ps, evs)
      | CallsBack \<Rightarrow> None)"

text \<open>
  \<open>Put\<close> (lines 75-84) for any listeners: the entry is created and holds the value
  before \<^verbatim>\<open>entry.Put(val)\<close> invokes the first listener.
\<close>

definition Put_with ::
    "(nat \<Rightarrow> reaction) \<Rightarrow> string \<Rightarrow> 'v \<Rightarrow> ('f, 'v) PubSub \<Rightarrow> (unit, 'f, 'v) outcome option" where
  "Put_with \<rho> k v ps =
     (if k = ''*'' then Some (Inr (), ps, [ConsoleError ''invalid key'' k])
      else
        (case createEntry k ps of
           (Own e, ps') \<Rightarrow>
             (let (e', evs, r) = Entry_Put_with \<rho> v e
              in after_listeners r () (ps'\<lparr>m := AList.update k e' (m ps')\<rparr>) evs)
         | (_, ps') \<Rightarrow> Some (Inl TypeError, ps', [])))"

text \<open>
  \<open>Delete\<close> (lines 89-99) for any listeners: an exception out of \<^verbatim>\<open>entry.Close()\<close>
  leaves the method before \<^verbatim>\<open>delete this.m[key]\<close>.
\<close>

definition Delete_with ::
    "(nat \<Rightarrow> reaction) \<Rightarrow> string \<Rightarrow> ('f, 'v) PubSub \<Rightarrow> (bool, 'f, 'v) outcome option" where
  "Delete_with \<rho> k ps =
     (case get_prop (m ps) k of
        Undefined \<Rightarrow> Some (Inr False, ps, [])
      | Inherited \<Rightarrow> Some (Inl TypeError, ps, [])
      | Own e \<Rightarrow>
          (let (e', evs, r) = Entry_Close_with \<rho> e
           in after_listeners r True
                (if r = Returns then ps\<lparr>m := AList.delete k (m ps)\<rparr> else ps) evs))"

text \<open>
  \<open>Close\<close> (lines 133-138) for any listeners: an exception out of
  \<^verbatim>\<open>this.m[k].Close()\<close> leaves the loop before \<^verbatim>\<open>delete this.m[k]\<close>, so the entry
  being closed and the entries not yet visited stay in the map. The oracle goes on
  counting from one entry to the next.
\<close>

fun Close_loop ::
    "(nat \<Rightarrow> reaction) \<Rightarrow> string list \<Rightarrow> (string \<times> ('f, 'v) Entry) list
       \<Rightarrow> (string \<times> ('f, 'v) Entry) list \<times> ('f, 'v) event list \<times> reaction" where
  "Close_loop \<rho> [] mp = (mp, [], Returns)"
| "Close_loop \<rho> (k # ks) mp =
     (case map_of mp k of
        None \<Rightarrow> Close_loop \<rho> ks mp
      | Some e \<Rightarrow>
          (let (e', evs, r) = Entry_Close_with \<rho> e
           in if r = Returns
              then (let (mp', evs', r') =
                          Close_loop (\<lambda>i. \<rho> (i + length evs)) ks (AList.delete k mp)
                    in (mp', evs @ evs', r'))
              else (mp, evs, r)))"

definition Close_with ::
    "(nat \<Rightarrow> reaction) \<Rightarrow> ('f, 'v) PubSub \<Rightarrow> (unit, 'f, 'v) outcome option" where
  "Close_with \<rho> ps =
     (let (mp, evs, r) = Close_loop \<rho> (own_keys (m ps)) (m ps)
      in after_listeners r () (ps\<lparr>m := mp\<rparr>) evs)"

subsection \<open>Runs of the store\<close>

text \<open>
  A client drives the store through its six public methods. A store is reachable when
  such calls lead to it from the empty store; a call that raises leaves the store it
  reached.
\<close>

datatype ('f, 'v) call =
    CallGet string
  | CallPut string 'v
  | CallDelete string
  | CallSub string 'f
  | CallUnsub string
  | CallClose

fun exec :: "('f, 'v) call \<Rightarrow> ('f, 'v) PubSub \<Rightarrow> ('f, 'v) PubSub" where
  "exec (CallGet k) ps = state_of (Get k ps)"
| "exec (CallPut k v) ps = state_of (Put k v ps)"
| "exec (CallDelete k) ps = state_of (Delete k ps)"
| "exec (CallSub k fn) ps = state_of (Sub k fn ps)"
| "exec (CallUnsub k) ps = state_of (Unsub k ps)"
| "exec CallClose ps = state_of (Close ps)"

definition run :: "('f, 'v) call list \<Rightarrow> ('f, 'v) PubSub" where
  "run cs = fold exec cs New"

inductive reachable :: "('f, 'v) PubSub \<Rightarrow> bool" where
  init: "reachable New"
| step: "reachable ps \<Longrightarrow> reachable (exec c ps)"

subsection \<open>The fan-out condition\<close>

text \<open>
  The condition the specification calls fan-out consistency: every listener registered in
  the global registry under an identifier is registered, under the same identifier, in the
  local registry of every entry of the map.
\<close>

definition fanout_consistent :: "('f, 'v) PubSub \<Rightarrow> bool" where
  "fanout_consistent ps =
     list_all (\<lambda>(sk, fn).
       list_all (\<lambda>(k, e). map_of (listeners (localSubs e)) sk = Some fn) (m ps))
       (listeners (s ps))"

subsection \<open>Well-formed stores\<close>

text \<open>
  The identifiers the global registry mints are \<open>global_\<close> followed by a decimal
  numeral. A registry is in order when it is the global one (by its namespace), holds
  each identifier once and holds only such identifiers. An entry is in order for a list
  of global listeners when it carries its key as name and namespace and holds every one of
  the listeners under its identifier. The condition \<open>fanout_inv\<close> collects what the
  store maintains as long as no entry is named \<open>global\<close>.
\<close>

definition is_global_id :: "string \<Rightarrow> bool" where
  "is_global_id sid =
     (take 7 sid = ''global_'' \<and> drop 7 sid \<noteq> [] \<and> list_all is_digit (drop 7 sid))"

definition registry_ok :: "'f Subber \<Rightarrow> bool" where
  "registry_ok sb =
     (namespace sb = ''global'' \<and> distinct (map fst (listeners sb))
      \<and> list_all (\<lambda>(sk, fn). is_global_id sk) (listeners sb))"

definition entry_ok :: "(string \<times> 'f) list \<Rightarrow> string \<Rightarrow> ('f, 'v) Entry \<Rightarrow> bool" where
  "entry_ok G k e =
     (key e = k \<and> namespace (localSubs e) = k
      \<and> list_all (\<lambda>(sk, fn). map_of (listeners (localSubs e)) sk = Some fn) G)"

definition fanout_inv :: "('f, 'v) PubSub \<Rightarrow> bool" where
  "fanout_inv ps =
     (distinct (map fst (m ps)) \<and> ''global'' \<notin> fst ` set (m ps) \<and> registry_ok (s ps)
      \<and> list_all (\<lambda>(k, e). entry_ok (listeners (s ps)) k e) (m ps))"

fun names_global :: "('f, 'v) call \<Rightarrow> bool" where
  "names_global (CallPut k v) = (k = ''global'')"
| "names_global (CallSub k fn) = (k = ''global'')"
| "names_global c = False"

section \<open>Properties\<close>

subsection \<open>Evaluation on concrete stores\<close>

lemma string_of_nat_0: "string_of_nat 0 = ''0''"
  by (simp add: string_of_nat.simps digit_char_def)

lemma string_of_nat_1: "string_of_nat (Suc 0) = ''1''"
  by (simp add: string_of_nat.simps digit_char_def)

lemmas store_defs =
  New_def Subber_new_def Subber_Sub_def Subber_Unsub_def Subber_ForEach_def
  Entry_new_def Entry_Get_def Entry_Put_def Entry_Sub_def Entry_Unsub_def Entry_Close_def
  Object_prototype_keys_def get_prop_def createEntry_def forEach_def forEach_step_def
  sub_def unsub_def
  Get_def Put_def Delete_def Sub_def Unsub_def Close_def Close_step_def
  result_of_def state_of_def events_of_def run_def Let_def fanout_consistent_def
  string_of_nat_0 string_of_nat_1

lemmas reaction_defs =
  quiet_def raises_after_def Entry_Put_with_def Entry_Close_with_def after_listeners_def
  Put_with_def Delete_with_def Close_with_def

lemmas key_order_defs =
  own_keys_def is_array_index_def is_digit_def nat_of_string_def digit_val_def

subsection \<open>The scenarios of section 8 of the specification\<close>

text \<open>
  The store does on these runs what the specification's testable properties say: a
  deleted entry closes its listeners, a global listener is invoked for entries that exist
  and for entries created later, a global unsubscription silences it everywhere, and an
  unsubscription from one entry leaves the other listeners alone.
\<close>

lemma scenario_delete_closes:
  "events_of (Put ''k'' (1::nat) (run [CallSub ''k'' (0::nat)])) = [Call 0 (Some 1) ''k'']
   \<and> Delete ''k'' (run [CallSub ''k'' (0::nat), CallPut ''k'' (1::nat)])
       = (Inr True, New, [Call 0 None ''k''])
   \<and> result_of (Get ''k'' (run [CallSub ''k'' (0::nat), CallPut ''k'' (1::nat), CallDelete ''k'']))
       = Inr None"
  by (simp add: store_defs key_order_defs)

lemma scenario_global_fanout_existing:
  "events_of (Put ''a'' (9::nat)
     (run [CallPut ''a'' (1::nat), CallPut ''b'' 2, CallSub ''*'' (0::nat)]))
     = [Call 0 (Some 9) ''a'']
   \<and> events_of (Put ''b'' (9::nat)
     (run [CallPut ''a'' (1::nat), CallPut ''b'' 2, CallSub ''*'' (0::nat)]))
     = [Call 0 (Some 9) ''b'']"
  by (simp add: store_defs key_order_defs)

lemma scenario_global_fanout_future:
  "events_of (Put ''c'' (9::nat) (run [CallSub ''*'' (0::nat)])) = [Call 0 (Some 9) ''c'']"
  by (simp add: store_defs key_order_defs)

lemma scenario_global_unsubscribe:
  "result_of (Unsub ''global_0'' (run [CallSub ''*'' (0::nat), CallPut ''c'' (9::nat)]))
     = Inr True
   \<and> Put ''c'' (8::nat) (run [CallSub ''*'' (0::nat), CallPut ''c'' (9::nat), CallUnsub ''global_0''])
     = (Inr (),
        run [CallSub ''*'' (0::nat), CallPut ''c'' (9::nat), CallUnsub ''global_0'', CallPut ''c'' 8],
        [])
   \<and> result_of (Get ''c''
        (run [CallSub ''*'' (0::nat), CallPut ''c'' (9::nat), CallUnsub ''global_0'', CallPut ''c'' 8]))
     = Inr (Some 8)"
  by (simp add: store_defs key_order_defs)

lemma scenario_local_unsubscribe:
  "result_of (Unsub ''a_0''
      (run [CallSub ''*'' (0::nat), CallSub ''a'' 1, CallSub ''b'' 2, CallPut ''a'' (5::nat)]))
     = Inr True
   \<and> events_of (Put ''a'' (6::nat)
      (run [CallSub ''*'' (0::nat), CallSub ''a'' 1, CallSub ''b'' 2, CallPut ''a'' (5::nat),
            CallUnsub ''a_0'']))
     = [Call 0 (Some 6) ''a'']
   \<and> events_of (Put ''b'' (6::nat)
      (run [CallSub ''*'' (0::nat), CallSub ''a'' 1, CallSub ''b'' 2, CallPut ''a'' (5::nat),
            CallUnsub ''a_0'']))
     = [Call 0 (Some 6) ''b'', Call 2 (Some 6) ''b'']"
  by (simp add: store_defs key_order_defs)

subsection \<open>Reading and writing the entry map\<close>

lemma map_of_None_keys: "map_of al k = None \<longleftrightarrow> k \<notin> fst ` set al"
  by (simp add: map_of_eq_None_iff)

lemma mset_own_keys: "mset (own_keys mp) = mset (map fst mp)"
  by (simp add: own_keys_def)

lemma set_own_keys: "set (own_keys mp) = fst ` set mp"
  using mset_own_keys [of mp] by (metis list.set_map mset_eq_setD)

lemma distinct_own_keys: "distinct (own_keys mp) = distinct (map fst mp)"
  using mset_own_keys [of mp] by (rule mset_eq_imp_distinct_iff)

lemma forEach_step_frame:
  "map fst (m (forEach_step f k ps)) = map fst (m ps) \<and> s (forEach_step f k ps) = s ps"
proof (cases "map_of (m ps) k")
  case None
  then show ?thesis
    by (simp add: forEach_step_def)
next
  case (Some e)
  then have "k \<in> fst ` set (m ps)"
    by (metis map_of_None_keys option.distinct(1))
  with Some show ?thesis
    by (simp add: forEach_step_def update_keys)
qed

lemma fold_forEach_step_frame:
  "map fst (m (fold (forEach_step f) ks ps)) = map fst (m ps)
   \<and> s (fold (forEach_step f) ks ps) = s ps"
  by (induction ks arbitrary: ps) (simp_all add: forEach_step_frame)

lemma keys_forEach: "map fst (m (forEach f ps)) = map fst (m ps)"
  by (simp add: forEach_def fold_forEach_step_frame)

lemma subs_forEach: "s (forEach f ps) = s ps"
  by (simp add: forEach_def fold_forEach_step_frame)

lemma map_absent_key:
  "k \<notin> fst ` set al \<Longrightarrow>
     map (\<lambda>(k', e'). (k', if k' = k then g k' e' else e')) al = al"
  by (induction al) auto

lemma update_as_map:
  "distinct (map fst al) \<Longrightarrow> map_of al k = Some e \<Longrightarrow>
     AList.update k (g e) al = map (\<lambda>(k', e'). (k', if k' = k then g e' else e')) al"
proof (induction al)
  case Nil
  then show ?case by simp
next
  case (Cons p al)
  obtain k' e' where p: "p = (k', e')"
    by (cases p)
  show ?case
  proof (cases "k' = k")
    case True
    with Cons.prems p have absent: "k \<notin> fst ` set al" and same: "e' = e"
      by auto
    from absent have "map (\<lambda>(k', e'). (k', if k' = k then (\<lambda>_. g) k' e' else e')) al = al"
      by (rule map_absent_key)
    with True p same show ?thesis
      by simp
  next
    case False
    with Cons p show ?thesis
      by simp
  qed
qed

text \<open>
  On a map with unique keys, \<open>forEach\<close> applies the callback to every entry once, whatever
  the order of the enumeration.
\<close>

lemma fold_forEach_step_map:
  assumes "distinct (map fst (m ps))" and "distinct ks"
  shows "m (fold (forEach_step f) ks ps) =
           map (\<lambda>(k, e). (k, if k \<in> set ks then f k e else e)) (m ps)"
  using assms
proof (induction ks arbitrary: ps)
  case Nil
  then show ?case by (simp add: case_prod_beta)
next
  case (Cons k ks)
  let ?ps1 = "forEach_step f k ps"
  have m1: "m ?ps1 = map (\<lambda>(k', e'). (k', if k' = k then f k' e' else e')) (m ps)"
  proof (cases "map_of (m ps) k")
    case None
    then have "k \<notin> fst ` set (m ps)"
      by (simp add: map_of_None_keys)
    then have "map (\<lambda>(k', e'). (k', if k' = k then f k' e' else e')) (m ps) = m ps"
      by (rule map_absent_key)
    with None show ?thesis
      by (simp add: forEach_step_def)
  next
    case (Some e)
    have "AList.update k (f k e) (m ps) =
            map (\<lambda>(k', e'). (k', if k' = k then f k e' else e')) (m ps)"
      using Cons.prems(1) Some by (rule update_as_map)
    also have "\<dots> = map (\<lambda>(k', e'). (k', if k' = k then f k' e' else e')) (m ps)"
      by (rule map_cong) auto
    finally show ?thesis
      using Some by (simp add: forEach_step_def)
  qed
  have d1: "distinct (map fst (m ?ps1))"
    using Cons.prems(1) by (simp add: forEach_step_frame)
  from Cons.prems(2) have dk: "distinct ks" and nk: "k \<notin> set ks"
    by simp_all
  have "m (fold (forEach_step f) (k # ks) ps) = m (fold (forEach_step f) ks ?ps1)"
    by simp
  also have "\<dots> = map (\<lambda>(k', e). (k', if k' \<in> set ks then f k' e else e)) (m ?ps1)"
    using d1 dk by (rule Cons.IH)
  also have "\<dots> = map (\<lambda>(k', e). (k', if k' \<in> set (k # ks) then f k' e else e)) (m ps)"
    unfolding m1 using nk by (auto simp: comp_def case_prod_beta)
  finally show ?case .
qed

lemma forEach_map:
  assumes "distinct (map fst (m ps))"
  shows "forEach f ps = ps\<lparr>m := map (\<lambda>(k, e). (k, f k e)) (m ps)\<rparr>"
proof -
  have "m (forEach f ps) =
          map (\<lambda>(k, e). (k, if k \<in> set (own_keys (m ps)) then f k e else e)) (m ps)"
    unfolding forEach_def using assms
    by (intro fold_forEach_step_map) (simp_all add: distinct_own_keys)
  also have "\<dots> = map (\<lambda>(k, e). (k, f k e)) (m ps)"
    by (rule map_cong) (force simp: set_own_keys)+
  finally have "m (forEach f ps) = map (\<lambda>(k, e). (k, f k e)) (m ps)" .
  moreover have "s (forEach f ps) = s ps"
    by (rule subs_forEach)
  ultimately show ?thesis
    by (cases ps, cases "forEach f ps") simp
qed

lemma keys_createEntry:
  "fst ` set (m (snd (createEntry k ps))) \<subseteq> insert k (fst ` set (m ps))"
  by (auto simp: createEntry_def get_prop_def Let_def dom_update split: option.splits)

lemma keys_Put:
  "fst ` set (m (state_of (Put k v ps))) \<subseteq> (if k = ''*'' then {} else {k}) \<union> fst ` set (m ps)"
proof (cases "k = ''*''")
  case True
  then show ?thesis
    by (simp add: Put_def state_of_def)
next
  case False
  obtain r ps' where ce: "createEntry k ps = (r, ps')"
    by force
  with keys_createEntry [of k ps] have "fst ` set (m ps') \<subseteq> insert k (fst ` set (m ps))"
    by simp
  with False ce show ?thesis
    by (cases r) (auto simp: Put_def state_of_def dom_update Entry_Put_def)
qed

lemma keys_sub: "map fst (m (snd (sub fn ps))) = map fst (m ps)"
  by (simp add: sub_def case_prod_beta keys_forEach)

lemma keys_Sub:
  "fst ` set (m (state_of (Sub k fn ps))) \<subseteq> (if k = ''*'' then {} else {k}) \<union> fst ` set (m ps)"
proof (cases "k = ''*''")
  case True
  have "fst ` set (m (snd (sub fn ps))) = fst ` set (m ps)"
    using keys_sub [of fn ps] by (metis list.set_map)
  with True show ?thesis
    by (simp add: Sub_def state_of_def case_prod_beta)
next
  case False
  obtain r ps' where ce: "createEntry k ps = (r, ps')"
    by force
  with keys_createEntry [of k ps] have "fst ` set (m ps') \<subseteq> insert k (fst ` set (m ps))"
    by simp
  with False ce show ?thesis
    by (cases r) (auto simp: Sub_def state_of_def dom_update Entry_Sub_def case_prod_beta)
qed

lemma keys_Delete: "fst ` set (m (state_of (Delete k ps))) \<subseteq> fst ` set (m ps)"
  using dom_delete_subset [of k "m ps"]
  by (cases "get_prop (m ps) k") (auto simp: Delete_def state_of_def Entry_Close_def)

lemma keys_unsub: "map fst (m (fst (snd (unsub k ps)))) = map fst (m ps)"
  by (simp add: unsub_def case_prod_beta keys_forEach)

lemma keys_Unsub: "fst ` set (m (state_of (Unsub k ps))) \<subseteq> fst ` set (m ps)"
proof (cases "takeWhile (\<lambda>c. c \<noteq> CHR ''_'') k = ''global''")
  case True
  have "fst ` set (m (fst (snd (unsub k ps)))) = fst ` set (m ps)"
    using keys_unsub [of k ps] by (metis list.set_map)
  with True show ?thesis
    by (simp add: Unsub_def state_of_def case_prod_beta)
next
  case False
  let ?ek = "takeWhile (\<lambda>c. c \<noteq> CHR ''_'') k"
  show ?thesis
  proof (cases "map_of (m ps) ?ek")
    case None
    with False show ?thesis
      by (simp add: Unsub_def state_of_def get_prop_def Let_def)
  next
    case (Some e)
    then have "?ek \<in> fst ` set (m ps)"
      by (metis map_of_None_keys option.distinct(1))
    with False Some show ?thesis
      by (simp add: Unsub_def state_of_def get_prop_def Entry_Unsub_def case_prod_beta
          dom_update Let_def)
  qed
qed

subsection \<open>The enumeration of Close\<close>

lemma fold_Close_step_fst:
  "fst (fold Close_step ks acc) = fold AList.delete ks (fst acc)"
proof (induction ks arbitrary: acc)
  case Nil
  show ?case by simp
next
  case (Cons k ks)
  have "fst (Close_step k acc) = AList.delete k (fst acc)"
    by (simp add: Close_step_def map_of_None_keys split: option.split)
  with Cons show ?case by simp
qed

lemma keys_fold_delete: "fst ` set (fold AList.delete ks mp) = fst ` set mp - set ks"
proof (induction ks arbitrary: mp)
  case Nil
  show ?case by simp
next
  case (Cons k ks)
  have "fst ` set (AList.delete k mp) = fst ` set mp - {k}"
    using delete_keys [of k mp] by (metis list.set_map set_removeAll)
  with Cons show ?case by auto
qed

lemma Close_entries_empty: "m (state_of (Close ps)) = []"
proof -
  have "fst ` set (fst (fold Close_step (own_keys (m ps)) (m ps, []))) = {}"
    by (simp add: fold_Close_step_fst keys_fold_delete set_own_keys)
  then show ?thesis
    by (simp add: Close_def state_of_def case_prod_beta)
qed

lemma fold_Close_step_snd:
  "distinct ks \<Longrightarrow>
     snd (fold Close_step ks (mp, evs)) =
       evs @ concat (map (\<lambda>k. case map_of mp k of None \<Rightarrow> []
                                | Some e \<Rightarrow> snd (Entry_Close e)) ks)"
proof (induction ks arbitrary: mp evs)
  case Nil
  show ?case by simp
next
  case (Cons k ks)
  let ?ev = "\<lambda>mp k. case map_of mp k of None \<Rightarrow> [] | Some e \<Rightarrow> snd (Entry_Close e)"
  have step: "Close_step k (mp, evs) = (AList.delete k mp, evs @ ?ev mp k)"
  proof (cases "map_of mp k")
    case None
    then have "AList.delete k mp = mp"
      by (simp add: map_of_None_keys)
    with None show ?thesis
      by (simp add: Close_step_def)
  next
    case (Some e)
    then show ?thesis
      by (simp add: Close_step_def)
  qed
  have rest: "map (?ev (AList.delete k mp)) ks = map (?ev mp) ks"
  proof (rule map_cong [OF refl])
    fix x
    assume "x \<in> set ks"
    with Cons.prems have "x \<noteq> k"
      by auto
    then show "?ev (AList.delete k mp) x = ?ev mp x"
      by simp
  qed
  from Cons.prems have dist: "distinct ks"
    by simp
  have "snd (fold Close_step (k # ks) (mp, evs)) =
          snd (fold Close_step ks (AList.delete k mp, evs @ ?ev mp k))"
    by (simp add: step)
  also have "\<dots> = (evs @ ?ev mp k) @ concat (map (?ev (AList.delete k mp)) ks)"
    using dist by (rule Cons.IH)
  also have "\<dots> = evs @ concat (map (?ev mp) (k # ks))"
    unfolding rest by simp
  finally show ?case .
qed

subsection \<open>Reachable stores\<close>

lemma reachable_fold: "reachable ps \<Longrightarrow> reachable (fold exec cs ps)"
  by (induction cs arbitrary: ps) (simp_all add: reachable.step)

lemma reachable_run: "reachable (run cs)"
  by (simp add: run_def reachable_fold reachable.init)

lemma exec_keeps_wildcard_out:
  assumes "''*'' \<notin> fst ` set (m ps)"
  shows "''*'' \<notin> fst ` set (m (exec c ps))"
proof (cases c)
  case (CallGet k)
  with assms show ?thesis
    by (simp add: Get_def state_of_def split: property.split)
next
  case (CallPut k v)
  with assms keys_Put [of k v ps] show ?thesis
    by (auto split: if_splits)
next
  case (CallDelete k)
  with assms keys_Delete [of k ps] show ?thesis
    by auto
next
  case (CallSub k fn)
  with assms keys_Sub [of k fn ps] show ?thesis
    by (auto split: if_splits)
next
  case (CallUnsub k)
  with assms keys_Unsub [of k ps] show ?thesis
    by auto
next
  case CallClose
  then show ?thesis
    by (simp add: Close_entries_empty)
qed

lemma reachable_no_wildcard: "reachable ps \<Longrightarrow> ''*'' \<notin> fst ` set (m ps)"
  by (induction rule: reachable.induct) (simp_all add: New_def exec_keeps_wildcard_out)

subsection \<open>Get\<close>

text \<open>
  C10. \<open>Get\<close> has no side effect: for every store and every key, the store after
  \<open>Get\<close> is the store before it (the entry map, so every entry's value and listener
  registry, and the global registry), no entry is created, and nothing is logged and no
  listener is invoked. This also holds where \<open>Get\<close> raises.
\<close>

theorem Get_no_side_effect:
  "state_of (Get k ps) = ps \<and> events_of (Get k ps) = []"
  by (simp add: Get_def state_of_def events_of_def split: property.split)

text \<open>By contrast, \<open>Put\<close> and \<open>Sub\<close> create the entry of a key that has none.\<close>

lemma Put_creates_entry:
  assumes "k \<noteq> ''*''" and "k \<notin> set Object_prototype_keys"
  shows "k \<in> fst ` set (m (state_of (Put k v ps)))"
proof (cases "map_of (m ps) k")
  case None
  with assms show ?thesis
    by (simp add: Put_def createEntry_def get_prop_def Entry_Put_def state_of_def Let_def
        dom_update)
next
  case (Some e)
  with assms show ?thesis
    by (simp add: Put_def createEntry_def get_prop_def Entry_Put_def state_of_def Let_def
        dom_update)
qed

subsection \<open>Listeners that return normally\<close>

text \<open>
  A notification pass reads the oracle only at the invocations it makes. When every
  invocation returns, the methods for any listeners are \<open>Put\<close>, \<open>Delete\<close> and \<open>Close\<close>.
\<close>

lemma notify_reads:
  "\<forall>i<length L. \<rho> i = \<rho>' i \<Longrightarrow> notify \<rho> v k L = notify \<rho>' v k L"
proof (induction L arbitrary: \<rho> \<rho>')
  case Nil
  show ?case by simp
next
  case (Cons p L)
  obtain sid fn where p: "p = (sid, fn)"
    by (cases p)
  from Cons.prems have head: "\<rho> 0 = \<rho>' 0"
    by simp
  from Cons.prems have "\<forall>i<length L. \<rho> (Suc i) = \<rho>' (Suc i)"
    by auto
  then have "notify (\<lambda>i. \<rho> (Suc i)) v k L = notify (\<lambda>i. \<rho>' (Suc i)) v k L"
    by (rule Cons.IH)
  with head p show ?case
    by (cases "\<rho>' 0") simp_all
qed

lemma notify_quiet:
  "\<forall>i. \<rho> i = Returns \<Longrightarrow> notify \<rho> v k L = (map (\<lambda>(sid, fn). Call fn v k) L, Returns)"
  by (induction L arbitrary: \<rho>) auto

lemma Entry_Put_with_quiet:
  "\<forall>i. \<rho> i = Returns \<Longrightarrow>
     Entry_Put_with \<rho> v e = (fst (Entry_Put v e), snd (Entry_Put v e), Returns)"
  by (simp add: Entry_Put_with_def Entry_Put_def notify_quiet)

lemma Entry_Close_with_quiet:
  "\<forall>i. \<rho> i = Returns \<Longrightarrow>
     Entry_Close_with \<rho> e = (fst (Entry_Close e), snd (Entry_Close e), Returns)"
  by (simp add: Entry_Close_with_def Entry_Close_def notify_quiet)

lemma Put_with_quiet:
  assumes "\<forall>i. \<rho> i = Returns"
  shows "Put_with \<rho> k v ps = Some (Put k v ps)"
proof -
  obtain r ps' where ce: "createEntry k ps = (r, ps')"
    by force
  show ?thesis
    by (cases r)
      (simp_all add: Put_with_def Put_def ce Entry_Put_with_quiet [OF assms]
        after_listeners_def case_prod_beta)
qed

lemma Delete_with_quiet:
  assumes "\<forall>i. \<rho> i = Returns"
  shows "Delete_with \<rho> k ps = Some (Delete k ps)"
  by (cases "get_prop (m ps) k")
    (simp_all add: Delete_with_def Delete_def Entry_Close_with_quiet [OF assms]
      after_listeners_def case_prod_beta)

lemma Close_loop_quiet:
  "\<forall>i. \<rho> i = Returns \<Longrightarrow>
     fold Close_step ks (mp, evs0) =
       (fst (Close_loop \<rho> ks mp), evs0 @ fst (snd (Close_loop \<rho> ks mp)))
     \<and> snd (snd (Close_loop \<rho> ks mp)) = Returns"
proof (induction ks arbitrary: mp evs0 \<rho>)
  case Nil
  show ?case by simp
next
  case (Cons k ks)
  show ?case
  proof (cases "map_of mp k")
    case None
    with Cons show ?thesis
      by (simp add: Close_step_def)
  next
    case (Some e)
    let ?\<rho>' = "\<lambda>i. \<rho> (i + length (snd (Entry_Close e)))"
    from Cons.prems have q: "\<forall>i. ?\<rho>' i = Returns"
      by simp
    from Cons.IH [OF q, of "AList.delete k mp" "evs0 @ snd (Entry_Close e)"] Some
    show ?thesis
      by (simp add: Close_step_def Entry_Close_with_quiet [OF Cons.prems] case_prod_beta)
  qed
qed

lemma Close_with_quiet:
  assumes "\<forall>i. \<rho> i = Returns"
  shows "Close_with \<rho> ps = Some (Close ps)"
  using Close_loop_quiet [OF assms, of "own_keys (m ps)" "m ps" "[]"]
  by (simp add: Close_with_def Close_def after_listeners_def case_prod_beta)

subsection \<open>Put followed by Get\<close>

lemma Put_stores_value:
  assumes "k \<noteq> ''*''" and "k \<notin> set Object_prototype_keys"
  shows "result_of (Put k v ps) = Inr ()
         \<and> Get k (state_of (Put k v ps)) = (Inr (Some v), state_of (Put k v ps), [])"
proof (cases "map_of (m ps) k")
  case None
  with assms show ?thesis
    by (simp add: Put_def createEntry_def get_prop_def Get_def Entry_Put_def Entry_Get_def
        result_of_def state_of_def Let_def update_conv')
next
  case (Some e)
  with assms show ?thesis
    by (simp add: Put_def createEntry_def get_prop_def Get_def Entry_Put_def Entry_Get_def
        result_of_def state_of_def Let_def update_conv')
qed

text \<open>
  Whatever its listeners do short of calling back, \<open>Put\<close> of such a key leaves the value
  stored: it is stored before the first listener is invoked.
\<close>

lemma Put_with_stores:
  assumes "k \<noteq> ''*''" and "k \<notin> set Object_prototype_keys"
    and "Put_with \<rho> k v ps = Some out"
  shows "Get k (state_of out) = (Inr (Some v), state_of out, [])"
proof -
  obtain r ps' where ce: "createEntry k ps = (r, ps')"
    by force
  from assms(2) ce obtain e where r: "r = Own e"
    by (cases r) (auto simp: createEntry_def get_prop_def Let_def split: option.splits)
  from assms(1,3) ce r show ?thesis
    by (auto simp: Put_with_def Entry_Put_with_def after_listeners_def state_of_def Get_def
        get_prop_def Entry_Get_def update_conv' case_prod_beta split: reaction.splits)
qed

text \<open>
  C4, as amended. For every key \<open>k\<close> other than the reserved \<open>*\<close> that does not name a
  member of \<^verbatim>\<open>Object.prototype\<close>, every value \<open>v\<close> and every store: when every listener
  that \<open>Put(k, v)\<close> invokes returns normally and does not call back into the store,
  \<open>Put(k, v)\<close> returns normally, and \<open>Get(k)\<close> on the store it leaves returns \<open>v\<close> and
  changes nothing.
\<close>

theorem Put_with_then_Get:
  assumes "k \<noteq> ''*''" and "k \<notin> set Object_prototype_keys" and "\<forall>i. \<rho> i = Returns"
  shows "\<exists>ps' evs. Put_with \<rho> k v ps = Some (Inr (), ps', evs)
                   \<and> Get k ps' = (Inr (Some v), ps', [])"
proof -
  obtain res ps' evs where out: "Put k v ps = (res, ps', evs)"
    by (cases "Put k v ps")
  from assms(3) have "Put_with \<rho> k v ps = Some (Put k v ps)"
    by (rule Put_with_quiet)
  moreover from Put_stores_value [OF assms(1,2), of v ps] out
  have "res = Inr ()" and "Get k ps' = (Inr (Some v), ps', [])"
    by (simp_all add: result_of_def state_of_def)
  ultimately show ?thesis
    using out by simp
qed

theorem Put_with_then_Get_witness:
  "''a'' \<noteq> ''*'' \<and> ''a'' \<notin> set Object_prototype_keys \<and> (\<forall>i. quiet i = Returns)
   \<and> Put_with quiet ''a'' (7::nat) (run [CallSub ''*'' (0::nat), CallSub ''a'' 1])
       = Some (Inr (),
           \<lparr>m = [(''a'', \<lparr>key = ''a'', val = Some 7, localSubs =
                     \<lparr>namespace = ''a'', counter = 1,
                        listeners = [(''global_0'', 0), (''a_0'', 1)]\<rparr>\<rparr>)],
              s = \<lparr>namespace = ''global'', counter = 1, listeners = [(''global_0'', 0)]\<rparr>\<rparr>,
           [Call 0 (Some 7) ''a'', Call 1 (Some 7) ''a''])
   \<and> result_of (Get ''a''
         \<lparr>m = [(''a'', \<lparr>key = ''a'', val = Some (7::nat), localSubs =
                     \<lparr>namespace = ''a'', counter = 1,
                        listeners = [(''global_0'', 0::nat), (''a_0'', 1)]\<rparr>\<rparr>)],
            s = \<lparr>namespace = ''global'', counter = 1, listeners = [(''global_0'', 0)]\<rparr>\<rparr>)
       = Inr (Some 7)"
proof -
  let ?ps = "run [CallSub ''*'' (0::nat), CallSub ''a'' 1] :: (nat, nat) PubSub"
  let ?after =
    "\<lparr>m = [(''a'', \<lparr>key = ''a'', val = Some (7::nat), localSubs =
                \<lparr>namespace = ''a'', counter = 1,
                   listeners = [(''global_0'', 0::nat), (''a_0'', 1)]\<rparr>\<rparr>)],
       s = \<lparr>namespace = ''global'', counter = 1, listeners = [(''global_0'', 0)]\<rparr>\<rparr>"
  have a: "''a'' \<noteq> ''*''"
    by simp
  have b: "''a'' \<notin> set Object_prototype_keys"
    by (simp add: Object_prototype_keys_def)
  have q: "\<forall>i. quiet i = Returns"
    by (simp add: quiet_def)
  have put: "Put_with quiet ''a'' (7::nat) ?ps
       = Some (Inr (), ?after, [Call 0 (Some 7) ''a'', Call 1 (Some 7) ''a''])"
    by (simp add: store_defs key_order_defs reaction_defs)
  from Put_with_then_Get [OF a b q, of 7 ?ps] obtain ps' evs
    where p: "Put_with quiet ''a'' 7 ?ps = Some (Inr (), ps', evs)"
      and g: "Get ''a'' ps' = (Inr (Some 7), ps', [])"
    by blast
  from p put have "ps' = ?after"
    by simp
  with g have "result_of (Get ''a'' ?after) = Inr (Some 7)"
    by (simp add: result_of_def)
  with a b q put show ?thesis
    by (intro conjI)
qed

text \<open>
  C4 as stated fails at the reserved key, whatever the listeners: \<open>Put("*", 1)\<close> on the
  empty store logs, stores nothing and leaves the store empty, and \<open>Get("*")\<close> returns
  null, not 1.
\<close>

theorem Put_with_wildcard_counterexample:
  "Put_with quiet ''*'' (1::nat) (New :: (nat, nat) PubSub)
     = Some (Inr (), New, [ConsoleError ''invalid key'' ''*''])
   \<and> result_of (Get ''*'' (New :: (nat, nat) PubSub)) = Inr None
   \<and> result_of (Get ''*'' (New :: (nat, nat) PubSub)) \<noteq> Inr (Some 1)"
  by (simp add: store_defs reaction_defs)

text \<open>
  A listener that raises leaves \<open>Put\<close> by its exception, after the value was stored and
  before the listeners after it are invoked.
\<close>

lemma Put_with_raising_listener:
  "Put_with (raises_after 0) ''a'' (7::nat) (run [CallSub ''a'' (0::nat), CallSub ''a'' 1])
     = Some (Inl ListenerError,
         \<lparr>m = [(''a'', \<lparr>key = ''a'', val = Some 7, localSubs =
                   \<lparr>namespace = ''a'', counter = 2,
                      listeners = [(''a_0'', 0), (''a_1'', 1)]\<rparr>\<rparr>)],
            s = \<lparr>namespace = ''global'', counter = 0, listeners = []\<rparr>\<rparr>,
         [Call 0 (Some 7) ''a''])"
  by (simp add: store_defs key_order_defs reaction_defs)

subsection \<open>The reserved key\<close>

text \<open>
  C5. The key \<open>*\<close> is reserved: in every reachable store it is not a key of the entry map;
  \<open>Put("*", v)\<close> logs an error, returns, and leaves the store as it was; \<open>Sub("*", fn)\<close>
  is the global subscription, which keeps the keys of the entry map as they were and
  registers \<open>fn\<close> in the global registry under the identifier it returns; and \<open>Get("*")\<close>
  returns null.
\<close>

theorem wildcard_reserved:
  assumes "reachable ps"
  shows "''*'' \<notin> fst ` set (m ps)
         \<and> Put ''*'' v ps = (Inr (), ps, [ConsoleError ''invalid key'' ''*''])
         \<and> Sub ''*'' fn ps = (Inr (fst (sub fn ps)), snd (sub fn ps), [])
         \<and> map fst (m (snd (sub fn ps))) = map fst (m ps)
         \<and> map_of (listeners (s (snd (sub fn ps)))) (fst (sub fn ps)) = Some fn
         \<and> Get ''*'' ps = (Inr None, ps, [])"
proof -
  from assms have absent: "''*'' \<notin> fst ` set (m ps)"
    by (rule reachable_no_wildcard)
  then have "map_of (m ps) ''*'' = None"
    by (simp add: map_of_None_keys)
  then have "Get ''*'' ps = (Inr None, ps, [])"
    by (simp add: Get_def get_prop_def Object_prototype_keys_def)
  moreover have "map_of (listeners (s (snd (sub fn ps)))) (fst (sub fn ps)) = Some fn"
    by (simp add: sub_def Subber_Sub_def subs_forEach Let_def update_conv')
  ultimately show ?thesis
    using absent by (simp add: Put_def Sub_def case_prod_beta keys_sub)
qed

theorem wildcard_reserved_witness:
  "reachable (run [CallPut ''*'' (1::nat), CallSub ''*'' (0::nat), CallPut ''a'' 2])
   \<and> ''*'' \<notin> fst ` set (m (run [CallPut ''*'' (1::nat), CallSub ''*'' (0::nat), CallPut ''a'' 2]))
   \<and> map fst (m (run [CallPut ''*'' (1::nat), CallSub ''*'' (0::nat), CallPut ''a'' 2])) = [''a'']
   \<and> result_of (Sub ''*'' (3::nat)
        (run [CallPut ''*'' (1::nat), CallSub ''*'' (0::nat), CallPut ''a'' 2])) = Inr ''global_1''
   \<and> result_of (Get ''*''
        (run [CallPut ''*'' (1::nat), CallSub ''*'' (0::nat), CallPut ''a'' 2])) = Inr None"
proof -
  let ?ps = "run [CallPut ''*'' (1::nat), CallSub ''*'' (0::nat), CallPut ''a'' 2]"
  have r: "reachable ?ps"
    by (rule reachable_run)
  have "map fst (m ?ps) = [''a'']"
    by (simp add: store_defs key_order_defs)
  moreover have "fst (sub (3::nat) ?ps) = ''global_1''"
    by (simp add: store_defs key_order_defs)
  ultimately show ?thesis
    using wildcard_reserved [OF r, of 1 3] r by (simp add: result_of_def)
qed

subsection \<open>Close\<close>

lemma Close_outcome:
  "result_of (Close ps) = Inr ()
   \<and> m (state_of (Close ps)) = []
   \<and> s (state_of (Close ps)) = s ps
   \<and> mset (own_keys (m ps)) = mset (map fst (m ps))
   \<and> (distinct (map fst (m ps)) \<longrightarrow>
        events_of (Close ps) =
          concat (map (\<lambda>k. case map_of (m ps) k of None \<Rightarrow> []
                            | Some e \<Rightarrow> snd (Entry_Close e)) (own_keys (m ps))))"
proof -
  have "distinct (map fst (m ps)) \<Longrightarrow> events_of (Close ps) =
          concat (map (\<lambda>k. case map_of (m ps) k of None \<Rightarrow> []
                            | Some e \<Rightarrow> snd (Entry_Close e)) (own_keys (m ps)))"
    using fold_Close_step_snd [of "own_keys (m ps)" "m ps" "[]"]
    by (simp add: Close_def events_of_def case_prod_beta distinct_own_keys)
  moreover have "result_of (Close ps) = Inr ()" "s (state_of (Close ps)) = s ps"
    by (simp_all add: Close_def result_of_def state_of_def case_prod_beta)
  ultimately show ?thesis
    by (simp add: Close_entries_empty mset_own_keys)
qed

lemma Close_with_globalSubs:
  "Close_with \<rho> ps = Some out \<Longrightarrow> s (state_of out) = s ps"
  by (auto simp: Close_with_def after_listeners_def state_of_def case_prod_beta
      split: reaction.splits)

text \<open>
  C7, as amended. \<open>Close\<close> leaves the global registry as it was, also when a listener's
  exception leaves it. The keys it walks are the keys of the entry map, each once. When
  every listener it invokes returns normally and does not call back into the store,
  \<open>Close\<close> returns normally and leaves the entry map empty and nothing else changed, and
  when the keys of the map are unique the calls it makes are, key by key in the order of
  the walk, one call with null and the entry's key to each listener of the entry.
\<close>

theorem Close_with_frame:
  "(\<forall>out. Close_with \<rho> ps = Some out \<longrightarrow> s (state_of out) = s ps)
   \<and> mset (own_keys (m ps)) = mset (map fst (m ps))
   \<and> ((\<forall>i. \<rho> i = Returns) \<longrightarrow>
        (\<exists>evs. Close_with \<rho> ps = Some (Inr (), ps\<lparr>m := []\<rparr>, evs)
           \<and> (distinct (map fst (m ps)) \<longrightarrow>
                evs = concat (map (\<lambda>k. case map_of (m ps) k of None \<Rightarrow> []
                            | Some e \<Rightarrow> map (\<lambda>(sid, fn). Call fn None (key e))
                                         (listeners (localSubs e)))
                        (own_keys (m ps))))))"
proof -
  have quiet: "\<exists>evs. Close_with \<rho> ps = Some (Inr (), ps\<lparr>m := []\<rparr>, evs)
           \<and> (distinct (map fst (m ps)) \<longrightarrow>
                evs = concat (map (\<lambda>k. case map_of (m ps) k of None \<Rightarrow> []
                            | Some e \<Rightarrow> map (\<lambda>(sid, fn). Call fn None (key e))
                                         (listeners (localSubs e)))
                        (own_keys (m ps))))"
    if q: "\<forall>i. \<rho> i = Returns"
  proof -
    obtain res ps' evs where out: "Close ps = (res, ps', evs)"
      by (cases "Close ps")
    from q have w: "Close_with \<rho> ps = Some (Close ps)"
      by (rule Close_with_quiet)
    from Close_outcome [of ps] out have res: "res = Inr ()" and m': "m ps' = []"
      and s': "s ps' = s ps"
      and evs: "distinct (map fst (m ps)) \<longrightarrow>
        evs = concat (map (\<lambda>k. case map_of (m ps) k of None \<Rightarrow> []
                            | Some e \<Rightarrow> map (\<lambda>(sid, fn). Call fn None (key e))
                                         (listeners (localSubs e)))
                        (own_keys (m ps)))"
      by (simp_all add: result_of_def state_of_def events_of_def Entry_Close_def
          cong: option.case_cong)
    from m' s' have "ps' = ps\<lparr>m := []\<rparr>"
      by (cases ps, cases ps') simp
    with w out res evs show ?thesis
      by simp
  qed
  show ?thesis
    using quiet Close_with_globalSubs [of \<rho> ps] by (simp add: mset_own_keys)
qed

theorem Close_with_frame_witness:
  "(\<forall>i. quiet i = Returns)
   \<and> distinct (map fst (m (run [CallSub ''*'' (0::nat), CallPut ''b'' (5::nat), CallSub ''2'' 7])))
   \<and> own_keys (m (run [CallSub ''*'' (0::nat), CallPut ''b'' (5::nat), CallSub ''2'' 7]))
       = [''2'', ''b'']
   \<and> Close_with quiet
        (run [CallSub ''*'' (0::nat), CallPut ''b'' (5::nat), CallSub ''2'' 7])
       = Some (Inr (),
           \<lparr>m = [], s = \<lparr>namespace = ''global'', counter = 1, listeners = [(''global_0'', 0)]\<rparr>\<rparr>,
           [Call 0 None ''2'', Call 7 None ''2'', Call 0 None ''b''])"
proof -
  let ?ps = "run [CallSub ''*'' (0::nat), CallPut ''b'' (5::nat), CallSub ''2'' 7]"
  have ps: "?ps =
    \<lparr>m = [(''b'', \<lparr>key = ''b'', val = Some 5, localSubs =
              \<lparr>namespace = ''b'', counter = 0, listeners = [(''global_0'', 0)]\<rparr>\<rparr>),
           (''2'', \<lparr>key = ''2'', val = None, localSubs =
              \<lparr>namespace = ''2'', counter = 1,
                 listeners = [(''global_0'', 0), (''2_0'', 7)]\<rparr>\<rparr>)],
      s = \<lparr>namespace = ''global'', counter = 1, listeners = [(''global_0'', 0)]\<rparr>\<rparr>"
    by (simp add: store_defs key_order_defs)
  have keys: "own_keys (m ?ps) = [''2'', ''b'']"
    unfolding ps by (simp add: key_order_defs)
  have d: "distinct (map fst (m ?ps))"
    unfolding ps by simp
  show ?thesis
    using Close_with_frame [of quiet ?ps] d keys
    unfolding ps by (auto simp: quiet_def)
qed

text \<open>
  C7 as stated fails when a listener raises. With an entry \<open>a\<close> whose listener returns
  and an entry \<open>b\<close> whose listener raises, \<open>Close\<close> is left by the exception while it
  closes \<open>b\<close>, and \<open>b\<close> stays in the entry map with its listener.
\<close>

theorem Close_with_raising_listener_counterexample:
  "Close_with (raises_after 1)
      (run [CallSub ''a'' (0::nat), CallSub ''b'' 1] :: (nat, nat) PubSub)
     = Some (Inl ListenerError,
         \<lparr>m = [(''b'', \<lparr>key = ''b'', val = None, localSubs =
                   \<lparr>namespace = ''b'', counter = 1, listeners = [(''b_0'', 1)]\<rparr>\<rparr>)],
            s = \<lparr>namespace = ''global'', counter = 0, listeners = []\<rparr>\<rparr>,
         [Call 0 None ''a'', Call 1 None ''b''])"
  by (simp add: store_defs key_order_defs reaction_defs)

subsection \<open>Unsubscribing a global listener\<close>

text \<open>
  C2. For every identifier whose part before the first underscore is \<open>global\<close>, on
  every store whose entry map has unique keys: when the identifier is registered in the
  global registry, \<open>Unsub\<close> returns true, removes it from the global registry and removes
  the same identifier from the local registry of every entry, changing nothing else and
  logging nothing; when it is not registered there, \<open>Unsub\<close> logs, returns false and
  leaves the whole store, so every entry, as it was.
\<close>

theorem Unsub_global:
  assumes "takeWhile (\<lambda>c. c \<noteq> CHR ''_'') sid = ''global''"
    and "distinct (map fst (m ps))"
  shows "Unsub sid ps =
           (if map_of (listeners (s ps)) sid \<noteq> None
            then (Inr True,
                  ps\<lparr>s := (s ps)\<lparr>listeners := AList.delete sid (listeners (s ps))\<rparr>,
                     m := map (\<lambda>(k, e). (k, e\<lparr>localSubs := (localSubs e)
                             \<lparr>listeners := AList.delete sid (listeners (localSubs e))\<rparr>\<rparr>))
                            (m ps)\<rparr>,
                  [])
            else (Inr False, ps, [ConsoleError ''Could not unsub key!'' sid]))"
proof (cases "map_of (listeners (s ps)) sid")
  case None
  then have "AList.delete sid (listeners (s ps)) = listeners (s ps)"
    by (simp add: map_of_None_keys)
  with None assms(1) show ?thesis
    by (simp add: Unsub_def unsub_def Subber_Unsub_def)
next
  case (Some fn)
  let ?ps1 = "ps\<lparr>s := (s ps)\<lparr>listeners := AList.delete sid (listeners (s ps))\<rparr>\<rparr>"
  from assms(2) have "distinct (map fst (m ?ps1))"
    by simp
  then have "forEach (\<lambda>_ e. snd (Entry_Unsub sid e)) ?ps1 =
               ?ps1\<lparr>m := map (\<lambda>(k, e). (k, snd (Entry_Unsub sid e))) (m ?ps1)\<rparr>"
    by (rule forEach_map)
  with Some assms(1) show ?thesis
    by (simp add: Unsub_def unsub_def Subber_Unsub_def Entry_Unsub_def)
qed

theorem Unsub_global_witness:
  "takeWhile (\<lambda>c. c \<noteq> CHR ''_'') ''global_0'' = ''global''
   \<and> distinct (map fst
        (m (run [CallSub ''*'' (0::nat), CallSub ''a'' 4, CallPut ''a'' (5::nat)])))
   \<and> Unsub ''global_0'' (run [CallSub ''*'' (0::nat), CallSub ''a'' 4, CallPut ''a'' (5::nat)]) =
       (Inr True,
        \<lparr>m = [(''a'', \<lparr>key = ''a'', val = Some 5, localSubs =
                  \<lparr>namespace = ''a'', counter = 1, listeners = [(''a_0'', 4)]\<rparr>\<rparr>)],
           s = \<lparr>namespace = ''global'', counter = 1, listeners = []\<rparr>\<rparr>,
        [])"
proof -
  let ?ps = "run [CallSub ''*'' (0::nat), CallSub ''a'' 4, CallPut ''a'' (5::nat)]"
  have p: "takeWhile (\<lambda>c. c \<noteq> CHR ''_'') ''global_0'' = ''global''"
    by simp
  have ps: "?ps =
    \<lparr>m = [(''a'', \<lparr>key = ''a'', val = Some 5, localSubs =
              \<lparr>namespace = ''a'', counter = 1,
                 listeners = [(''global_0'', 0), (''a_0'', 4)]\<rparr>\<rparr>)],
      s = \<lparr>namespace = ''global'', counter = 1, listeners = [(''global_0'', 0)]\<rparr>\<rparr>"
    by (simp add: store_defs key_order_defs)
  have d: "distinct (map fst (m ?ps))"
    unfolding ps by simp
  show ?thesis
    using Unsub_global [OF p d] p d
    unfolding ps by simp
qed

subsection \<open>Keys that name members of Object.prototype\<close>

text \<open>
  The entry map is read with \<^verbatim>\<open>this.m[key]\<close> and tested for truthiness only. For a key
  that names a member of \<^verbatim>\<open>Object.prototype\<close> and has no entry, the read yields that
  member, the test \<^verbatim>\<open>!entry\<close> fails, and the method call on it raises. The lemmas of
  this subsection give what each method does for the keys where the read is an entry or
  undefined; the theorems evaluate the methods at an inherited name.
\<close>

lemma Get_missing:
  assumes "k \<notin> fst ` set (m ps)" and "k \<notin> set Object_prototype_keys"
  shows "Get k ps = (Inr None, ps, [])"
proof -
  from assms(1) have "map_of (m ps) k = None"
    by (simp add: map_of_None_keys)
  with assms(2) show ?thesis
    by (simp add: Get_def get_prop_def)
qed

lemma Get_present:
  assumes "map_of (m ps) k = Some e"
  shows "Get k ps = (Inr (Entry_Get e), ps, [])"
  using assms by (simp add: Get_def get_prop_def)

text \<open>
  C8. The claim: \<open>Get(k)\<close> returns null for every key that has no entry. On the empty
  store no key has an entry, and \<open>Get("toString")\<close> raises \<^verbatim>\<open>TypeError\<close>.
\<close>

theorem Get_inherited_name_raises:
  "''toString'' \<notin> fst ` set (m (New :: (nat, nat) PubSub))
   \<and> Get ''toString'' (New :: (nat, nat) PubSub) = (Inl TypeError, New, [])"
  by (simp add: store_defs)

lemma Delete_missing:
  assumes "k \<notin> fst ` set (m ps)" and "k \<notin> set Object_prototype_keys"
  shows "Delete k ps = (Inr False, ps, [])"
proof -
  from assms(1) have "map_of (m ps) k = None"
    by (simp add: map_of_None_keys)
  with assms(2) show ?thesis
    by (simp add: Delete_def get_prop_def)
qed

lemma Delete_present:
  assumes "map_of (m ps) k = Some e"
  shows "Delete k ps =
           (Inr True, ps\<lparr>m := AList.delete k (m ps)\<rparr>,
            map (\<lambda>(sid, fn). Call fn None (key e)) (listeners (localSubs e)))"
    and "k \<notin> fst ` set (m (state_of (Delete k ps)))"
  using assms by (simp_all add: Delete_def get_prop_def Entry_Close_def state_of_def
      delete_notin_dom)

text \<open>
  C6. The claim: \<open>Delete(k)\<close> returns false, with no side effect, for every key that has
  no entry. On the empty store \<open>Delete("toString")\<close> raises \<^verbatim>\<open>TypeError\<close>.
\<close>

theorem Delete_inherited_name_raises:
  "''toString'' \<notin> fst ` set (m (New :: (nat, nat) PubSub))
   \<and> Delete ''toString'' (New :: (nat, nat) PubSub) = (Inl TypeError, New, [])"
  by (simp add: store_defs)

lemma Unsub_entry_missing:
  assumes "takeWhile (\<lambda>c. c \<noteq> CHR ''_'') sid = ek" and "ek \<noteq> ''global''"
    and "ek \<notin> fst ` set (m ps)" and "ek \<notin> set Object_prototype_keys"
  shows "Unsub sid ps = (Inr False, ps, [])"
proof -
  from assms(3) have "map_of (m ps) ek = None"
    by (simp add: map_of_None_keys)
  with assms(1,2,4) show ?thesis
    by (simp add: Unsub_def get_prop_def Let_def)
qed

lemma Unsub_entry_present:
  assumes "takeWhile (\<lambda>c. c \<noteq> CHR ''_'') sid = ek" and "ek \<noteq> ''global''"
    and "map_of (m ps) ek = Some e"
  shows "Unsub sid ps =
           (Inr (fst (Entry_Unsub sid e)),
            ps\<lparr>m := AList.update ek (snd (Entry_Unsub sid e)) (m ps)\<rparr>, [])"
  using assms by (simp add: Unsub_def get_prop_def Let_def case_prod_beta)

text \<open>
  C3. The claim: \<open>Unsub(id)\<close> returns false whenever the part of \<open>id\<close> before the first
  underscore is not \<open>global\<close> and names no entry. On the empty store
  \<open>Unsub("toString_0")\<close> raises \<^verbatim>\<open>TypeError\<close>.
\<close>

theorem Unsub_inherited_name_raises:
  "takeWhile (\<lambda>c. c \<noteq> CHR ''_'') ''toString_0'' = ''toString''
   \<and> ''toString'' \<notin> fst ` set (m (New :: (nat, nat) PubSub))
   \<and> Unsub ''toString_0'' (New :: (nat, nat) PubSub) = (Inl TypeError, New, [])"
  by (simp add: store_defs)

subsection \<open>Identifiers\<close>

text \<open>
  A rendered counter is a non-empty string of digits, so an identifier minted by the
  global registry is of the global form, and an identifier minted by the registry of an
  entry is of the global form only if the entry is named \<open>global\<close>.
\<close>

lemma digits_below_ten: "\<forall>i<10. is_digit (''0123456789'' ! i)"
  by (simp add: eval_nat_numeral All_less_Suc is_digit_def)

lemma is_digit_digit_char: "is_digit (digit_char d)"
  using digits_below_ten by (simp add: digit_char_def)

lemma string_of_nat_digits: "string_of_nat n \<noteq> [] \<and> list_all is_digit (string_of_nat n)"
proof (induction n rule: string_of_nat.induct)
  case (1 n)
  show ?case
  proof (cases "n < 10")
    case True
    then show ?thesis
      by (simp add: string_of_nat.simps [of n] is_digit_digit_char)
  next
    case False
    with 1 show ?thesis
      by (simp add: string_of_nat.simps [of n] is_digit_digit_char)
  qed
qed

lemma underscore_no_digit: "\<not> is_digit (CHR ''_'')"
  by (simp add: is_digit_def)

lemma takeWhile_digits:
  "list_all is_digit ds \<Longrightarrow> takeWhile is_digit (ds @ CHR ''_'' # rest) = ds"
  by (induction ds) (simp_all add: underscore_no_digit)

lemma global_id_prefix:
  assumes "is_global_id sid"
  shows "takeWhile (\<lambda>c. c \<noteq> CHR ''_'') sid = ''global''"
proof -
  from assms have "sid = ''global_'' @ drop 7 sid"
    by (metis append_take_drop_id is_global_id_def)
  then obtain r where "sid = ''global_'' @ r"
    by blast
  then show ?thesis
    by simp
qed

lemma minted_is_global_id: "is_global_id (''global'' @ ''_'' @ string_of_nat n)"
  by (simp add: is_global_id_def string_of_nat_digits)

lemma minted_not_global_id:
  assumes "k \<noteq> ''global''"
  shows "\<not> is_global_id (k @ ''_'' @ string_of_nat n)"
proof
  let ?ds = "string_of_nat n"
  let ?x = "k @ ''_'' @ ?ds"
  assume g: "is_global_id ?x"
  define r where "r = drop 7 ?x"
  from g have x: "?x = ''global_'' @ r" and r: "list_all is_digit r"
    unfolding r_def by (metis append_take_drop_id is_global_id_def, simp add: is_global_id_def)
  have ds: "list_all is_digit (rev ?ds)" and rr: "list_all is_digit (rev r)"
    using string_of_nat_digits [of n] r by (simp_all add: list_all_iff)
  have "takeWhile is_digit (rev ?x) = rev ?ds"
    using takeWhile_digits [OF ds, of "rev k"] by simp
  moreover have "takeWhile is_digit (rev ?x) = rev r"
    unfolding x using takeWhile_digits [OF rr, of "rev ''global''"] by simp
  ultimately have "r = ?ds"
    by simp
  with x have "k @ ''_'' = ''global_''"
    by simp
  then have "k = ''global''"
    by simp
  with assms show False
    by simp
qed

subsection \<open>Fan-out on stores with no entry named global\<close>

lemma list_all_update:
  "P (k, v) \<Longrightarrow> list_all P al \<Longrightarrow> list_all P (AList.update k v al)"
  by (induction al) auto

lemma list_all_delete: "list_all P al \<Longrightarrow> list_all P (AList.delete k al)"
  by (simp add: AList.delete_eq list_all_iff)

lemma set_delete: "set (AList.delete k al) = {p \<in> set al. fst p \<noteq> k}"
  by (auto simp: AList.delete_eq)

lemma fold_forward:
  "fold (\<lambda>(sid, fn) e. snd (Entry_Sub fn (Some sid) e)) L e =
     e\<lparr>localSubs := (localSubs e)\<lparr>listeners :=
          fold (\<lambda>(sid, fn). AList.update sid fn) L (listeners (localSubs e))\<rparr>\<rparr>"
  by (induction L arbitrary: e) (simp_all add: Entry_Sub_def Subber_Sub_def case_prod_beta)

lemma map_of_fold_update_other:
  "sk \<notin> fst ` set L \<Longrightarrow>
     map_of (fold (\<lambda>(sid, fn). AList.update sid fn) L acc) sk = map_of acc sk"
  by (induction L arbitrary: acc) (auto simp: update_conv')

lemma map_of_fold_update:
  "distinct (map fst L) \<Longrightarrow> (sk, fn) \<in> set L \<Longrightarrow>
     map_of (fold (\<lambda>(sid, fn). AList.update sid fn) L acc) sk = Some fn"
proof (induction L arbitrary: acc)
  case Nil
  then show ?case by simp
next
  case (Cons p L)
  obtain a b where p: "p = (a, b)"
    by (cases p)
  show ?case
  proof (cases "(sk, fn) = (a, b)")
    case True
    with Cons.prems p have "sk \<notin> fst ` set L"
      by auto
    with True p show ?thesis
      by (simp add: map_of_fold_update_other update_conv')
  next
    case False
    with Cons p show ?thesis
      by auto
  qed
qed

lemma entry_ok_forwarded:
  assumes "distinct (map fst (listeners sb))"
  shows "entry_ok (listeners sb) k
           (Subber_ForEach (\<lambda>sKey fn e. snd (Entry_Sub fn (Some sKey) e)) sb (Entry_new k))"
  using assms
  by (auto simp: entry_ok_def Subber_ForEach_def fold_forward Entry_new_def Subber_new_def
      list_all_iff map_of_fold_update)

lemma entry_ok_Put: "entry_ok G k e \<Longrightarrow> entry_ok G k (fst (Entry_Put v e))"
  by (simp add: entry_ok_def Entry_Put_def)

lemma entry_ok_Sub_local:
  assumes "entry_ok G k e" and "k \<noteq> ''global''"
    and "list_all (\<lambda>(sk, fn). is_global_id sk) G"
  shows "entry_ok G k (snd (Entry_Sub fn None e))"
proof -
  let ?sid = "k @ ''_'' @ string_of_nat (counter (localSubs e))"
  have "map_of (AList.update ?sid fn (listeners (localSubs e))) sk = Some fn'"
    if "(sk, fn') \<in> set G" for sk fn'
  proof -
    from that assms(3) have "is_global_id sk"
      by (auto simp: list_all_iff)
    with assms(2) have "sk \<noteq> ?sid"
      using minted_not_global_id by blast
    moreover from that assms(1) have "map_of (listeners (localSubs e)) sk = Some fn'"
      by (auto simp: entry_ok_def list_all_iff)
    ultimately show ?thesis
      by (simp add: update_conv')
  qed
  with assms(1) show ?thesis
    by (auto simp: entry_ok_def Entry_Sub_def Subber_Sub_def Let_def list_all_iff)
qed

lemma entry_ok_Sub_forward:
  assumes "entry_ok G k e" and "distinct (map fst G)"
  shows "entry_ok (AList.update sk fn G) k (snd (Entry_Sub fn (Some sk) e))"
proof -
  have "map_of (AList.update sk fn (listeners (localSubs e))) sk' = Some fn'"
    if "(sk', fn') \<in> set (AList.update sk fn G)" for sk' fn'
  proof -
    from assms(2) have "distinct (map fst (AList.update sk fn G))"
      by (rule distinct_update)
    with that have "map_of (AList.update sk fn G) sk' = Some fn'"
      by simp
    then have new: "((map_of G)(sk \<mapsto> fn)) sk' = Some fn'"
      by (simp add: update_conv')
    show ?thesis
    proof (cases "sk' = sk")
      case True
      with new show ?thesis
        by (simp add: update_conv')
    next
      case False
      with new have "(sk', fn') \<in> set G"
        by (simp add: map_of_SomeD)
      with assms(1) have "map_of (listeners (localSubs e)) sk' = Some fn'"
        by (auto simp: entry_ok_def list_all_iff)
      with False show ?thesis
        by (simp add: update_conv')
    qed
  qed
  with assms(1) show ?thesis
    by (auto simp: entry_ok_def Entry_Sub_def Subber_Sub_def list_all_iff)
qed

lemma entry_ok_Unsub_forward:
  assumes "entry_ok G k e"
  shows "entry_ok (AList.delete sid G) k (snd (Entry_Unsub sid e))"
  using assms
  by (auto simp: entry_ok_def Entry_Unsub_def Subber_Unsub_def list_all_iff set_delete)

lemma entry_ok_Unsub_local:
  assumes "entry_ok G k e" and "list_all (\<lambda>(sk, fn). is_global_id sk) G"
    and "takeWhile (\<lambda>c. c \<noteq> CHR ''_'') sid \<noteq> ''global''"
  shows "entry_ok G k (snd (Entry_Unsub sid e))"
proof -
  have "map_of (AList.delete sid (listeners (localSubs e))) sk = Some fn'"
    if "(sk, fn') \<in> set G" for sk fn'
  proof -
    from that assms(2) have "is_global_id sk"
      by (auto simp: list_all_iff)
    with assms(3) have "sk \<noteq> sid"
      using global_id_prefix by blast
    moreover from that assms(1) have "map_of (listeners (localSubs e)) sk = Some fn'"
      by (auto simp: entry_ok_def list_all_iff)
    ultimately show ?thesis
      by simp
  qed
  with assms(1) show ?thesis
    by (auto simp: entry_ok_def Entry_Unsub_def Subber_Unsub_def list_all_iff)
qed

lemma fanout_inv_entry:
  assumes "fanout_inv ps" and "map_of (m ps) k = Some e"
  shows "entry_ok (listeners (s ps)) k e"
proof -
  from assms(2) have "(k, e) \<in> set (m ps)"
    by (rule map_of_SomeD)
  moreover from assms(1) have "list_all (\<lambda>(k, e). entry_ok (listeners (s ps)) k e) (m ps)"
    by (simp add: fanout_inv_def)
  ultimately show ?thesis
    by (auto simp: list_all_iff)
qed

lemma fanout_inv_write:
  assumes "fanout_inv ps" and "entry_ok (listeners (s ps)) k e" and "k \<noteq> ''global''"
  shows "fanout_inv (ps\<lparr>m := AList.update k e (m ps)\<rparr>)"
  using assms
  by (auto simp: fanout_inv_def distinct_update dom_update list_all_update)

lemma createEntry_inv:
  assumes "fanout_inv ps" and "k \<noteq> ''global''" and "createEntry k ps = (r, ps')"
  shows "fanout_inv ps' \<and> s ps' = s ps
         \<and> (case r of Own e \<Rightarrow> map_of (m ps') k = Some e | Inherited \<Rightarrow> ps' = ps
             | Undefined \<Rightarrow> False)"
proof (cases "get_prop (m ps) k")
  case (Own e)
  with assms show ?thesis
    by (auto simp: createEntry_def get_prop_def split: option.splits if_splits)
next
  case Inherited
  with assms show ?thesis
    by (auto simp: createEntry_def)
next
  case Undefined
  let ?e = "Subber_ForEach (\<lambda>sKey fn e. snd (Entry_Sub fn (Some sKey) e)) (s ps) (Entry_new k)"
  from assms(1) have "distinct (map fst (listeners (s ps)))"
    by (simp add: fanout_inv_def registry_ok_def)
  then have "entry_ok (listeners (s ps)) k ?e"
    by (rule entry_ok_forwarded)
  with assms(1) have "fanout_inv (ps\<lparr>m := AList.update k ?e (m ps)\<rparr>)"
    using assms(2) by (rule fanout_inv_write)
  with Undefined assms(3) show ?thesis
    by (auto simp: createEntry_def Let_def update_conv')
qed

lemma Put_inv:
  assumes "fanout_inv ps" and "k \<noteq> ''global''"
  shows "fanout_inv (state_of (Put k v ps))"
proof (cases "k = ''*''")
  case True
  with assms(1) show ?thesis
    by (simp add: Put_def state_of_def)
next
  case False
  obtain r ps' where ce: "createEntry k ps = (r, ps')"
    by force
  from createEntry_inv [OF assms ce]
  have inv': "fanout_inv ps'"
    and r: "case r of Own e \<Rightarrow> map_of (m ps') k = Some e | Inherited \<Rightarrow> ps' = ps
            | Undefined \<Rightarrow> False"
    by simp_all
  show ?thesis
  proof (cases r)
    case (Own e)
    with r have "map_of (m ps') k = Some e"
      by simp
    with inv' have "entry_ok (listeners (s ps')) k e"
      by (rule fanout_inv_entry)
    then have "entry_ok (listeners (s ps')) k (fst (Entry_Put v e))"
      by (rule entry_ok_Put)
    with inv' have "fanout_inv (ps'\<lparr>m := AList.update k (fst (Entry_Put v e)) (m ps')\<rparr>)"
      using assms(2) by (rule fanout_inv_write)
    with False ce Own show ?thesis
      by (simp add: Put_def state_of_def case_prod_beta)
  next
    case Inherited
    with False ce inv' show ?thesis
      by (simp add: Put_def state_of_def)
  next
    case Undefined
    with r show ?thesis
      by simp
  qed
qed

lemma sub_inv:
  assumes "fanout_inv ps"
  shows "fanout_inv (snd (sub fn ps))"
proof -
  define G where "G = listeners (s ps)"
  define sk where "sk = ''global'' @ ''_'' @ string_of_nat (counter (s ps))"
  define sb where "sb = (s ps)\<lparr>counter := counter (s ps) + 1, listeners := AList.update sk fn G\<rparr>"
  define f where "f = (\<lambda>(k::string) e. snd (Entry_Sub fn (Some sk) e) :: ('a, 'b) Entry)"
  define m' where "m' = map (\<lambda>(k, e). (k, f k e)) (m ps)"
  from assms have reg: "registry_ok (s ps)" and dist: "distinct (map fst (m ps))"
    and nog: "''global'' \<notin> fst ` set (m ps)"
    and ents: "list_all (\<lambda>(k, e). entry_ok G k e) (m ps)"
    by (simp_all add: fanout_inv_def G_def)
  from reg have ns: "namespace (s ps) = ''global''" and dG: "distinct (map fst G)"
    and gG: "list_all (\<lambda>(sk, fn). is_global_id sk) G"
    by (simp_all add: registry_ok_def G_def)
  have minted: "Subber_Sub fn None (s ps) = (sk, sb)"
    by (simp add: Subber_Sub_def ns Let_def sk_def sb_def G_def)
  have "distinct (map fst (m (ps\<lparr>s := sb\<rparr>)))"
    using dist by simp
  then have "forEach f (ps\<lparr>s := sb\<rparr>) =
               (ps\<lparr>s := sb\<rparr>)\<lparr>m := map (\<lambda>(k, e). (k, f k e)) (m (ps\<lparr>s := sb\<rparr>))\<rparr>"
    by (rule forEach_map)
  then have state: "snd (sub fn ps) = ps\<lparr>s := sb, m := m'\<rparr>"
    by (simp add: sub_def minted f_def m'_def)
  have "is_global_id sk"
    unfolding sk_def by (rule minted_is_global_id)
  then have reg': "registry_ok sb"
    using ns dG gG by (simp add: registry_ok_def distinct_update list_all_update sb_def)
  have keys': "map fst m' = map fst (m ps)"
    by (simp add: comp_def case_prod_beta m'_def)
  have ents': "list_all (\<lambda>(k, e). entry_ok (listeners sb) k e) m'"
    using ents dG by (auto simp: list_all_iff sb_def f_def m'_def intro: entry_ok_Sub_forward)
  have "fst ` set m' = fst ` set (m ps)"
    using keys' by (metis list.set_map)
  with nog have nog': "''global'' \<notin> fst ` set m'"
    by simp
  show ?thesis
    unfolding state fanout_inv_def by (simp add: dist keys' nog' reg' ents')
qed

lemma Sub_inv:
  assumes "fanout_inv ps" and "k \<noteq> ''global''"
  shows "fanout_inv (state_of (Sub k fn ps))"
proof (cases "k = ''*''")
  case True
  with sub_inv [OF assms(1), of fn] show ?thesis
    by (simp add: Sub_def state_of_def case_prod_beta)
next
  case False
  obtain r ps' where ce: "createEntry k ps = (r, ps')"
    by force
  from createEntry_inv [OF assms ce]
  have inv': "fanout_inv ps'"
    and r: "case r of Own e \<Rightarrow> map_of (m ps') k = Some e | Inherited \<Rightarrow> ps' = ps
            | Undefined \<Rightarrow> False"
    by simp_all
  show ?thesis
  proof (cases r)
    case (Own e)
    with r have "map_of (m ps') k = Some e"
      by simp
    with inv' have "entry_ok (listeners (s ps')) k e"
      by (rule fanout_inv_entry)
    moreover from inv' have "list_all (\<lambda>(sk, fn). is_global_id sk) (listeners (s ps'))"
      by (simp add: fanout_inv_def registry_ok_def)
    ultimately have "entry_ok (listeners (s ps')) k (snd (Entry_Sub fn None e))"
      using assms(2) by (intro entry_ok_Sub_local)
    with inv' have "fanout_inv (ps'\<lparr>m := AList.update k (snd (Entry_Sub fn None e)) (m ps')\<rparr>)"
      using assms(2) by (rule fanout_inv_write)
    with False ce Own show ?thesis
      by (simp add: Sub_def state_of_def case_prod_beta)
  next
    case Inherited
    with False ce inv' show ?thesis
      by (simp add: Sub_def state_of_def)
  next
    case Undefined
    with r show ?thesis
      by simp
  qed
qed

lemma unsub_inv:
  assumes "fanout_inv ps"
  shows "fanout_inv (fst (snd (unsub sid ps)))"
proof -
  define G where "G = listeners (s ps)"
  define sb where "sb = (s ps)\<lparr>listeners := AList.delete sid G\<rparr>"
  define f where "f = (\<lambda>(k::string) e. snd (Entry_Unsub sid e) :: ('a, 'b) Entry)"
  define m' where "m' = map (\<lambda>(k, e). (k, f k e)) (m ps)"
  from assms have reg: "registry_ok (s ps)" and dist: "distinct (map fst (m ps))"
    and nog: "''global'' \<notin> fst ` set (m ps)"
    and ents: "list_all (\<lambda>(k, e). entry_ok G k e) (m ps)"
    by (simp_all add: fanout_inv_def G_def)
  show ?thesis
  proof (cases "map_of G sid")
    case None
    then have "AList.delete sid G = G"
      by (simp add: map_of_None_keys)
    then have "sb = s ps"
      by (simp add: sb_def G_def)
    with None assms show ?thesis
      by (simp add: unsub_def Subber_Unsub_def G_def sb_def)
  next
    case (Some fn)
    have "distinct (map fst (m (ps\<lparr>s := sb\<rparr>)))"
      using dist by simp
    then have "forEach f (ps\<lparr>s := sb\<rparr>) =
                 (ps\<lparr>s := sb\<rparr>)\<lparr>m := map (\<lambda>(k, e). (k, f k e)) (m (ps\<lparr>s := sb\<rparr>))\<rparr>"
      by (rule forEach_map)
    with Some have state: "fst (snd (unsub sid ps)) = ps\<lparr>s := sb, m := m'\<rparr>"
      by (simp add: unsub_def Subber_Unsub_def f_def m'_def G_def sb_def)
    from reg have reg': "registry_ok sb"
      by (simp add: registry_ok_def distinct_delete list_all_delete sb_def G_def)
    have keys': "map fst m' = map fst (m ps)"
      by (simp add: comp_def case_prod_beta m'_def)
    have ents': "list_all (\<lambda>(k, e). entry_ok (listeners sb) k e) m'"
      using ents by (auto simp: list_all_iff sb_def f_def m'_def intro: entry_ok_Unsub_forward)
    have "fst ` set m' = fst ` set (m ps)"
      using keys' by (metis list.set_map)
    with nog have nog': "''global'' \<notin> fst ` set m'"
      by simp
    show ?thesis
      unfolding state fanout_inv_def by (simp add: dist keys' nog' reg' ents')
  qed
qed

lemma Unsub_inv:
  assumes "fanout_inv ps"
  shows "fanout_inv (state_of (Unsub sid ps))"
proof (cases "takeWhile (\<lambda>c. c \<noteq> CHR ''_'') sid = ''global''")
  case True
  with unsub_inv [OF assms, of sid] show ?thesis
    by (simp add: Unsub_def state_of_def case_prod_beta)
next
  case False
  define ek where "ek = takeWhile (\<lambda>c. c \<noteq> CHR ''_'') sid"
  with False have ekg: "ek \<noteq> ''global''"
    by simp
  show ?thesis
  proof (cases "map_of (m ps) ek")
    case None
    with assms ekg show ?thesis
      by (simp add: Unsub_def state_of_def get_prop_def Let_def ek_def)
  next
    case (Some e)
    with assms have "entry_ok (listeners (s ps)) ek e"
      by (rule fanout_inv_entry)
    moreover from assms have "list_all (\<lambda>(sk, fn). is_global_id sk) (listeners (s ps))"
      by (simp add: fanout_inv_def registry_ok_def)
    ultimately have "entry_ok (listeners (s ps)) ek (snd (Entry_Unsub sid e))"
      using False by (intro entry_ok_Unsub_local)
    with assms have "fanout_inv (ps\<lparr>m := AList.update ek (snd (Entry_Unsub sid e)) (m ps)\<rparr>)"
      using ekg by (rule fanout_inv_write)
    with Some ekg show ?thesis
      by (simp add: Unsub_def state_of_def get_prop_def Let_def case_prod_beta ek_def)
  qed
qed

lemma Delete_inv:
  assumes "fanout_inv ps"
  shows "fanout_inv (state_of (Delete k ps))"
proof (cases "map_of (m ps) k")
  case None
  with assms show ?thesis
    by (simp add: Delete_def state_of_def get_prop_def)
next
  case (Some e)
  from assms have "''global'' \<notin> fst ` set (AList.delete k (m ps))"
    using dom_delete_subset [of k "m ps"] by (auto simp: fanout_inv_def)
  with assms have "fanout_inv (ps\<lparr>m := AList.delete k (m ps)\<rparr>)"
    by (simp add: fanout_inv_def distinct_delete list_all_delete)
  with Some show ?thesis
    by (simp add: Delete_def state_of_def get_prop_def case_prod_beta)
qed

lemma Close_inv:
  assumes "fanout_inv ps"
  shows "fanout_inv (state_of (Close ps))"
proof -
  have "m (state_of (Close ps)) = []"
    by (rule Close_entries_empty)
  moreover have "s (state_of (Close ps)) = s ps"
    by (simp add: Close_def state_of_def case_prod_beta)
  ultimately show ?thesis
    using assms by (simp add: fanout_inv_def)
qed

lemma exec_inv:
  assumes "fanout_inv ps" and "\<not> names_global c"
  shows "fanout_inv (exec c ps)"
proof (cases c)
  case (CallGet k)
  with assms(1) show ?thesis
    by (simp add: Get_def state_of_def split: property.split)
next
  case (CallPut k v)
  with assms Put_inv [of ps k v] show ?thesis
    by simp
next
  case (CallDelete k)
  with assms(1) Delete_inv [of ps k] show ?thesis
    by simp
next
  case (CallSub k fn)
  with assms Sub_inv [of ps k fn] show ?thesis
    by simp
next
  case (CallUnsub k)
  with assms(1) Unsub_inv [of ps k] show ?thesis
    by simp
next
  case CallClose
  with assms(1) Close_inv [of ps] show ?thesis
    by simp
qed

lemma fanout_inv_New: "fanout_inv New"
  by (simp add: fanout_inv_def registry_ok_def New_def Subber_new_def)

lemma fold_exec_inv:
  "fanout_inv ps \<Longrightarrow> list_all (\<lambda>c. \<not> names_global c) cs \<Longrightarrow> fanout_inv (fold exec cs ps)"
  by (induction cs arbitrary: ps) (simp_all add: exec_inv)

lemma fanout_inv_consistent:
  assumes "fanout_inv ps"
  shows "fanout_consistent ps"
  using assms
  by (auto simp: fanout_inv_def fanout_consistent_def entry_ok_def list_all_iff)

text \<open>
  Every store reached from the empty one by calls none of which is \<open>Put\<close> or \<open>Sub\<close> on the
  key \<open>global\<close> is fan-out consistent.
\<close>

lemma fanout_without_key_global:
  assumes "list_all (\<lambda>c. \<not> names_global c) cs"
  shows "fanout_consistent (run cs)"
  unfolding run_def using fanout_inv_New assms
  by (intro fanout_inv_consistent fold_exec_inv)

subsection \<open>Fan-out and the key global\<close>

text \<open>
  C1. The claim: in every reachable store, every listener of the global registry is
  registered under the same identifier in every entry. The registry of the entry named
  \<open>global\<close> mints its identifiers from the same prefix as the global registry. After
  \<open>Sub("*", 0)\<close> and \<open>Sub("global", 1)\<close> the global registry holds listener 0 under
  \<open>global_0\<close>, and the entry \<open>global\<close> holds listener 1 under \<open>global_0\<close>: a reachable
  store that is not fan-out consistent.
\<close>

theorem fanout_broken_by_key_global:
  "reachable (run [CallSub ''*'' (0::nat), CallSub ''global'' 1] :: (nat, nat) PubSub)
   \<and> run [CallSub ''*'' (0::nat), CallSub ''global'' 1] =
       (\<lparr>m = [(''global'', \<lparr>key = ''global'', val = None, localSubs =
                  \<lparr>namespace = ''global'', counter = 1, listeners = [(''global_0'', 1)]\<rparr>\<rparr>)],
           s = \<lparr>namespace = ''global'', counter = 1, listeners = [(''global_0'', 0)]\<rparr>\<rparr>
         :: (nat, nat) PubSub)
   \<and> \<not> fanout_consistent (run [CallSub ''*'' (0::nat), CallSub ''global'' 1] :: (nat, nat) PubSub)"
proof -
  let ?ps = "run [CallSub ''*'' (0::nat), CallSub ''global'' 1] :: (nat, nat) PubSub"
  have ps: "?ps =
    \<lparr>m = [(''global'', \<lparr>key = ''global'', val = None, localSubs =
              \<lparr>namespace = ''global'', counter = 1, listeners = [(''global_0'', 1)]\<rparr>\<rparr>)],
      s = \<lparr>namespace = ''global'', counter = 1, listeners = [(''global_0'', 0)]\<rparr>\<rparr>"
    by (simp add: store_defs key_order_defs)
  have broken: "\<not> fanout_consistent ?ps"
    unfolding ps by (simp add: fanout_consistent_def)
  have r: "reachable ?ps"
    by (rule reachable_run)
  from r ps broken show ?thesis
    by (intro conjI)
qed

subsection \<open>Keys that contain an underscore\<close>

text \<open>
  On a store with \<open>fanout_inv\<close>, take a key \<open>k\<close> that contains an underscore and whose
  part before the first underscore neither names an entry nor a member of
  \<^verbatim>\<open>Object.prototype\<close> (nor is \<open>k\<close> itself such a name). Then \<open>Sub(k, fn)\<close> returns
  \<open>k_n\<close> for some \<open>n\<close>, \<open>Unsub\<close> of that identifier returns false and leaves the store as
  it was, and \<open>Put(k, v)\<close> still invokes \<open>fn\<close>.
\<close>

lemma Unsub_after_Sub_underscore_key:
  fixes ps :: "('f, 'v) PubSub"
  assumes inv: "fanout_inv ps"
    and us: "CHR ''_'' \<in> set k"
    and kp: "k \<notin> set Object_prototype_keys"
    and ek: "takeWhile (\<lambda>c. c \<noteq> CHR ''_'') k = ek"
    and ekp: "ek \<notin> set Object_prototype_keys"
    and absent: "ek \<notin> fst ` set (m (state_of (Sub k fn ps)))"
  shows "\<exists>n. result_of (Sub k fn ps) = Inr (k @ ''_'' @ string_of_nat n)
             \<and> result_of (Unsub (k @ ''_'' @ string_of_nat n) (state_of (Sub k fn ps))) = Inr False
             \<and> state_of (Unsub (k @ ''_'' @ string_of_nat n) (state_of (Sub k fn ps)))
                 = state_of (Sub k fn ps)
             \<and> Call fn (Some v) k \<in> set (events_of (Put k v (state_of (Sub k fn ps))))"
proof -
  from us have kstar: "k \<noteq> ''*''" and kglobal: "k \<noteq> ''global''"
    by auto
  obtain r ps' where ce: "createEntry k ps = (r, ps')"
    by force
  from createEntry_inv [OF inv kglobal ce]
  have inv': "fanout_inv ps'" and s': "s ps' = s ps"
    and r: "case r of Own e \<Rightarrow> map_of (m ps') k = Some e | Inherited \<Rightarrow> ps' = ps
            | Undefined \<Rightarrow> False"
    by simp_all
  from ce kp have "r \<noteq> Inherited"
    by (auto simp: createEntry_def get_prop_def Let_def split: option.splits)
  with r obtain e where own: "r = Own e" and look: "map_of (m ps') k = Some e"
    by (cases r) simp_all
  from inv' look have ok: "entry_ok (listeners (s ps')) k e"
    by (rule fanout_inv_entry)
  then have ns: "namespace (localSubs e) = k" and ke: "key e = k"
    by (simp_all add: entry_ok_def)
  define n where "n = counter (localSubs e)"
  define sid where "sid = k @ ''_'' @ string_of_nat n"
  define e1 where "e1 = snd (Entry_Sub fn None e)"
  define ps1 where "ps1 = ps'\<lparr>m := AList.update k e1 (m ps')\<rparr>"
  have minted: "Entry_Sub fn None e = (sid, e1)"
    by (simp add: e1_def sid_def n_def Entry_Sub_def Subber_Sub_def Let_def ns)
  have Sub: "Sub k fn ps = (Inr sid, ps1, [])"
    using kstar ce own minted by (simp add: Sub_def ps1_def)
  have e1: "key e1 = k" "map_of (listeners (localSubs e1)) sid = Some fn"
    using minted ke by (auto simp: Entry_Sub_def Subber_Sub_def Let_def update_conv')
  have look1: "map_of (m ps1) k = Some e1"
    by (simp add: ps1_def update_conv')
  have s1: "s ps1 = s ps"
    by (simp add: ps1_def s')
  have prefix: "takeWhile (\<lambda>c. c \<noteq> CHR ''_'') sid = ek"
    using us ek by (simp add: sid_def takeWhile_append1)
  from absent Sub have absent1: "ek \<notin> fst ` set (m ps1)"
    by (simp add: state_of_def)
  have unsub: "result_of (Unsub sid ps1) = Inr False \<and> state_of (Unsub sid ps1) = ps1"
  proof (cases "ek = ''global''")
    case True
    from inv have "list_all (\<lambda>(sk, fn). is_global_id sk) (listeners (s ps))"
      by (simp add: fanout_inv_def registry_ok_def)
    moreover have "\<not> is_global_id sid"
      unfolding sid_def using kglobal by (rule minted_not_global_id)
    ultimately have out: "sid \<notin> fst ` set (listeners (s ps))"
      by (auto simp: list_all_iff)
    then have "map_of (listeners (s ps1)) sid = None"
      by (simp add: map_of_None_keys s1)
    moreover from out have "AList.delete sid (listeners (s ps1)) = listeners (s ps1)"
      by (simp add: s1)
    ultimately show ?thesis
      using True prefix
      by (simp add: Unsub_def unsub_def Subber_Unsub_def result_of_def state_of_def)
  next
    case False
    from absent1 have "map_of (m ps1) ek = None"
      by (simp add: map_of_None_keys)
    with False ekp prefix show ?thesis
      by (simp add: Unsub_def get_prop_def Let_def result_of_def state_of_def)
  qed
  have "(sid, fn) \<in> set (listeners (localSubs e1))"
    using e1(2) by (rule map_of_SomeD)
  then have "Call fn (Some v) k \<in> set (snd (Entry_Put v e1))"
    by (force simp: Entry_Put_def e1(1))
  moreover have "events_of (Put k v ps1) = snd (Entry_Put v e1)"
    using kstar look1
    by (simp add: Put_def createEntry_def get_prop_def events_of_def case_prod_beta)
  ultimately have "Call fn (Some v) k \<in> set (events_of (Put k v ps1))"
    by simp
  with unsub Sub show ?thesis
    unfolding sid_def by (auto simp: result_of_def state_of_def)
qed

text \<open>
  C9. The claim: for a key \<open>k\<close> that contains an underscore, \<open>Unsub\<close> of the identifier
  that \<open>Sub(k, fn)\<close> returned returns false when the part of \<open>k\<close> before the underscore
  names no entry, and \<open>fn\<close> stays registered. On the empty store \<open>Sub("toString_x", 0)\<close>
  returns \<open>toString_x_0\<close>; no entry is named \<open>toString\<close>; \<open>Unsub("toString_x_0")\<close>
  raises \<^verbatim>\<open>TypeError\<close>. The listener stays registered: a later \<open>Put\<close> invokes it.
\<close>

theorem Unsub_underscore_key_raises:
  "result_of (Sub ''toString_x'' (0::nat) (New :: (nat, nat) PubSub)) = Inr ''toString_x_0''
   \<and> ''toString'' \<notin> fst ` set (m (state_of (Sub ''toString_x'' (0::nat) (New :: (nat, nat) PubSub))))
   \<and> Unsub ''toString_x_0'' (state_of (Sub ''toString_x'' (0::nat) (New :: (nat, nat) PubSub)))
       = (Inl TypeError, state_of (Sub ''toString_x'' (0::nat) (New :: (nat, nat) PubSub)), [])
   \<and> events_of (Put ''toString_x'' (1::nat)
        (state_of (Sub ''toString_x'' (0::nat) (New :: (nat, nat) PubSub))))
       = [Call 0 (Some 1) ''toString_x'']"
  by (simp add: store_defs)

end
